theory Spec2Isabelle
  imports Complex_Main "HOL-Library.AList" "HOL-Library.Multiset"
begin

section \<open>GoalieScout: movement analytics and ranking pipeline\<close>

text \<open>
  A shallow embedding of \<^verbatim>\<open>src/reports/generator.py\<close>,
  \<^verbatim>\<open>src/metrics/movement.py\<close> and
  \<^verbatim>\<open>src/ai_providers/anthropic_provider.py\<close>.

  Conventions of the embedding.
  \<^item> Python's unbounded \<^verbatim>\<open>int\<close> is \<^typ>\<open>int\<close>; a \<^verbatim>\<open>str\<close> is a
    \<^typ>\<open>string\<close> of characters with code points below 256, among which the decimal
    digits are the ASCII digits.
  \<^item> A binary64 value is a \<^typ>\<open>real\<close>, and every floating-point operation of the
    source is the exact operation followed by a rounding function \<open>fl\<close>, which is a
    parameter of each numeric definition. Infinities, NaN and overflow are outside the
    model. Whatever a theorem needs to know about \<open>fl\<close> is a hypothesis of it, stated
    so that rounding to nearest in binary64 meets it.
  \<^item> A report dictionary is a record of the keys that
    \<^verbatim>\<open>generate_player_report\<close> writes, with the key \<^verbatim>\<open>rank\<close> optional.
    Report dictionaries are mutable objects: they live in a store, and the lists the
    ranking works on are lists of addresses.
\<close>

subsection \<open>Tier classification (\<^verbatim>\<open>ReportGenerator._score_to_tier\<close>)\<close>

definition score_to_tier :: "int \<Rightarrow> string" where
  "score_to_tier score =
     (if score \<ge> 90 then ''S''
      else if score \<ge> 80 then ''A''
      else if score \<ge> 70 then ''B''
      else if score \<ge> 60 then ''C''
      else if score \<ge> 50 then ''D''
      else ''F'')"

subsection \<open>Reports and the store\<close>

text \<open>
  The dictionary returned by \<^verbatim>\<open>generate_player_report\<close> has the six keys
  \<^verbatim>\<open>player_name, position, metrics, scouting_notes, score, tier\<close>;
  \<^verbatim>\<open>rank_players\<close> adds \<^verbatim>\<open>rank\<close>. The optional field is \<open>None\<close> while
  the key is absent. A store maps the address of every report object to its current
  contents; a Python list of reports is a list of addresses, so that two entries of a
  list may be the same object.
\<close>

record report =
  player_name :: string
  position :: string
  metrics :: "(string \<times> real) list"
  scouting_notes :: string
  score :: int
  tier :: string
  rank :: "int option"

type_synonym addr = nat
type_synonym store = "addr \<Rightarrow> report"

datatype error = KeyError string

type_synonym rounding = "real \<Rightarrow> real"

subsection \<open>Ranking (\<^verbatim>\<open>ReportGenerator.rank_players\<close>)\<close>

text \<open>
  \<^verbatim>\<open>sorted(reports, key=..., reverse=True)\<close>: CPython reverses the list, sorts it
  stably in ascending order of the key and reverses the result, which is why equal keys
  keep their original order. \<^const>\<open>sort_key\<close> is a stable ascending sort.
\<close>

definition sorted_reverse :: "('a \<Rightarrow> int) \<Rightarrow> 'a list \<Rightarrow> 'a list" where
  "sorted_reverse key xs = rev (sort_key key (rev xs))"

text \<open>
  \<^verbatim>\<open>for rank, report in enumerate(sorted_reports, 1): report['rank'] = rank\<close>:
  the loop writes into the report objects themselves.
\<close>

fun assign_ranks :: "store \<Rightarrow> int \<Rightarrow> addr list \<Rightarrow> store" where
  "assign_ranks h r [] = h"
| "assign_ranks h r (a # as) = assign_ranks (h(a := (h a)\<lparr>rank := Some r\<rparr>)) (r + 1) as"

definition rank_players :: "store \<Rightarrow> addr list \<Rightarrow> store \<times> addr list" where
  "rank_players h reports =
     (let sorted_reports = sorted_reverse (\<lambda>x. score (h x)) reports
      in (assign_ranks h 1 sorted_reports, sorted_reports))"

subsection \<open>Summary (\<^verbatim>\<open>ReportGenerator.generate_summary\<close>)\<close>

record top_player =
  top_rank :: int
  top_name :: string
  top_position :: string
  top_score :: int
  top_tier :: string

text \<open>
  The summary dictionary. The branch for an empty batch returns a dictionary without the
  key \<^verbatim>\<open>average_score\<close>: the field is \<open>None\<close> there. A Python dictionary keeps
  insertion order, so \<^verbatim>\<open>tier_distribution\<close> is an association list.
\<close>

record summary =
  total_players :: int
  tier_distribution :: "(string \<times> int) list"
  top_3_players :: "top_player list"
  average_score :: "real option"

definition dict_get :: "('k \<times> 'v) list \<Rightarrow> 'k \<Rightarrow> 'v \<Rightarrow> 'v" where
  "dict_get d k dflt = (case map_of d k of None \<Rightarrow> dflt | Some v \<Rightarrow> v)"

text \<open>\<^verbatim>\<open>tier_counts[tier] = tier_counts.get(tier, 0) + 1\<close>, for every report in turn.\<close>

fun count_tiers :: "(string \<times> int) list \<Rightarrow> report list \<Rightarrow> (string \<times> int) list" where
  "count_tiers tier_counts [] = tier_counts"
| "count_tiers tier_counts (r # rs) =
     count_tiers (AList.update (tier r) (dict_get tier_counts (tier r) 0 + 1) tier_counts) rs"

text \<open>One entry of \<^verbatim>\<open>top_3\<close>; \<^verbatim>\<open>report['rank']\<close> raises KeyError on an unranked report.\<close>

definition top_entry :: "report \<Rightarrow> error + top_player" where
  "top_entry r =
     (case rank r of
        None \<Rightarrow> Inl (KeyError ''rank'')
      | Some k \<Rightarrow> Inr \<lparr>top_rank = k, top_name = player_name r, top_position = position r,
                       top_score = score r, top_tier = tier r\<rparr>)"

text \<open>A list comprehension whose element expression may raise: the first error ends it.\<close>

fun collect :: "('a \<Rightarrow> error + 'b) \<Rightarrow> 'a list \<Rightarrow> error + 'b list" where
  "collect f [] = Inr []"
| "collect f (x # xs) =
     (case f x of
        Inl e \<Rightarrow> Inl e
      | Inr y \<Rightarrow> (case collect f xs of Inl e \<Rightarrow> Inl e | Inr ys \<Rightarrow> Inr (y # ys)))"

text \<open>
  The scores are Python integers, so their sum is exact; \<^verbatim>\<open>/\<close> on two integers is
  the quotient rounded to binary64.
\<close>

definition generate_summary :: "rounding \<Rightarrow> store \<Rightarrow> addr list \<Rightarrow> error + summary" where
  "generate_summary fl h refs =
     (let ranked_reports = map h refs in
      if ranked_reports = [] then
        Inr \<lparr>total_players = 0, tier_distribution = [], top_3_players = [],
             average_score = None\<rparr>
      else
        let tier_counts = count_tiers [] ranked_reports in
        case collect top_entry (take 3 ranked_reports) of
          Inl e \<Rightarrow> Inl e
        | Inr top_3 \<Rightarrow>
            Inr \<lparr>total_players = int (length ranked_reports),
                 tier_distribution = tier_counts,
                 top_3_players = top_3,
                 average_score =
                   Some (fl (real_of_int (sum_list (map score ranked_reports))
                             / real (length ranked_reports)))\<rparr>)"

subsection \<open>The scoring capability (\<^verbatim>\<open>AIProvider\<close>, \<^verbatim>\<open>AnthropicProvider\<close>)\<close>

text \<open>
  String helpers of the provider: \<^verbatim>\<open>str.strip()\<close> (which removes the white space
  characters at both ends) and \<^verbatim>\<open>re.search(r'\d+', s)\<close> (the leftmost, longest run
  of decimal digits).
\<close>

definition is_digit :: "char \<Rightarrow> bool" where
  "is_digit c \<longleftrightarrow> c \<in> set ''0123456789''"

definition is_space :: "char \<Rightarrow> bool" where
  "is_space c \<longleftrightarrow> (of_char c :: nat) \<in> {9, 10, 11, 12, 13, 28, 29, 30, 31, 32, 133, 160}"

definition strip :: "string \<Rightarrow> string" where
  "strip s = rev (dropWhile is_space (rev (dropWhile is_space s)))"

definition re_search_digits :: "string \<Rightarrow> string option" where
  "re_search_digits s =
     (case dropWhile (\<lambda>c. \<not> is_digit c) s of
        [] \<Rightarrow> None
      | c # cs \<Rightarrow> Some (takeWhile is_digit (c # cs)))"

definition digit_value :: "char \<Rightarrow> int" where
  "digit_value c = of_char c - 48"

definition decimal :: "string \<Rightarrow> int" where
  "decimal ds = foldl (\<lambda>n c. 10 * n + digit_value c) 0 ds"

text \<open>
  \<^verbatim>\<open>int(s)\<close> on a string of decimal digits. The interpreter refuses a string of more
  digits than its conversion limit with a \<^verbatim>\<open>ValueError\<close>; leading zeros count.
  The limit \<^verbatim>\<open>sys.get_int_max_str_digits()\<close> is 4300 unless configured otherwise,
  0 switches the check off, and interpreters older than the check behave as with 0: it
  is a parameter.
\<close>

datatype exn = Exception string

definition default_max_str_digits :: nat where
  "default_max_str_digits = 4300"

definition py_int :: "nat \<Rightarrow> string \<Rightarrow> exn + int" where
  "py_int max_str_digits ds =
     (if 0 < max_str_digits \<and> max_str_digits < length ds
      then Inl (Exception ''Exceeds the limit for integer string conversion'')
      else Inr (decimal ds))"

text \<open>
  The remote call \<^verbatim>\<open>self.client.messages.create(...)\<close> followed by
  \<^verbatim>\<open>message.content[0].text\<close> is a parameter \<open>create\<close> of the provider's
  methods: given the system text and the user message it yields the response text or
  raises. Both methods catch every exception; in \<^verbatim>\<open>generate_score\<close> the
  \<^verbatim>\<open>try\<close> block also holds the conversion of the digits, and every exception
  ends in the default 50.
\<close>

definition report_system :: string where
  "report_system = ''You are an expert hockey scout specializing in player movement analysis.''"

definition score_system :: string where
  "score_system = ''You are a hockey scout providing numeric scores. Return only the integer score.''"

definition scoring_prompt :: "string \<Rightarrow> string" where
  "scoring_prompt prompt = prompt @
     ''\<newline>\<newline>Based on the above analysis, provide ONLY a numeric score from 0-100 (integer only, no explanation):''"

definition anthropic_generate_report :: "(string \<Rightarrow> string \<Rightarrow> exn + string) \<Rightarrow> string \<Rightarrow> string" where
  "anthropic_generate_report create prompt =
     (case create report_system prompt of
        Inl (Exception msg) \<Rightarrow> ''Error generating report: '' @ msg
      | Inr text \<Rightarrow> strip text)"

definition anthropic_generate_score ::
  "nat \<Rightarrow> (string \<Rightarrow> string \<Rightarrow> exn + string) \<Rightarrow> string \<Rightarrow> int" where
  "anthropic_generate_score max_str_digits create prompt =
     (case create score_system (scoring_prompt prompt) of
        Inl e \<Rightarrow> 50
      | Inr text \<Rightarrow>
          (let score_text = strip text in
           case re_search_digits score_text of
             Some m \<Rightarrow>
               (case py_int max_str_digits m of
                  Inl e \<Rightarrow> 50
                | Inr sc \<Rightarrow> max 0 (min 100 sc))
           | None \<Rightarrow> 50))"

text \<open>
  The interface \<^verbatim>\<open>AIProvider\<close>: any object with the two methods can be injected
  into \<^verbatim>\<open>ReportGenerator\<close>.
\<close>

record ai_provider =
  generate_report :: "string \<Rightarrow> string"
  generate_score :: "string \<Rightarrow> int"

definition anthropic_provider ::
  "nat \<Rightarrow> (string \<Rightarrow> string \<Rightarrow> exn + string) \<Rightarrow> ai_provider" where
  "anthropic_provider max_str_digits create =
     \<lparr>generate_report = anthropic_generate_report create,
      generate_score = anthropic_generate_score max_str_digits create\<rparr>"

subsection \<open>Report assembly (\<^verbatim>\<open>ReportGenerator.generate_player_report\<close>)\<close>

text \<open>
  The prompt text is built by \<^verbatim>\<open>generate_player_prompt\<close>, an f-string over the
  metrics; it only travels to the provider, and is a parameter here. The score goes
  from the provider to \<^verbatim>\<open>_score_to_tier\<close> and into the report as it is.
\<close>

definition generate_player_report ::
  "(string \<Rightarrow> string \<Rightarrow> (string \<times> real) list \<Rightarrow> string) \<Rightarrow> ai_provider \<Rightarrow>
   string \<Rightarrow> string \<Rightarrow> (string \<times> real) list \<Rightarrow> report" where
  "generate_player_report generate_player_prompt ai nm pos ms =
     (let prompt = generate_player_prompt nm pos ms;
          notes = generate_report ai prompt;
          sc = generate_score ai prompt;
          tr = score_to_tier sc
      in \<lparr>player_name = nm, position = pos, metrics = ms, scouting_notes = notes,
          score = sc, tier = tr, rank = None\<rparr>)"

subsection \<open>Tracking tables and column resolution (\<^verbatim>\<open>MovementMetrics._find_column\<close>)\<close>

text \<open>
  A tracking table (a pandas DataFrame with float64 columns) is its list of column names
  and its list of rows; a row gives the value of each column. The cells of a row outside
  the table's columns are never read: every read goes through a resolved column name.
\<close>

type_synonym row = "string \<Rightarrow> real"

record dataframe =
  columns :: "string list"
  rows :: "row list"

fun find_column :: "string list \<Rightarrow> string list \<Rightarrow> string" where
  "find_column cols [] = []"
| "find_column cols (name # possible_names) =
     (if name \<in> set cols then name else find_column cols possible_names)"

definition x_names :: "string list" where
  "x_names = [''x'', ''x_coord'', ''x_position'']"

definition y_names :: "string list" where
  "y_names = [''y'', ''y_coord'', ''y_position'']"

definition time_names :: "string list" where
  "time_names = [''time'', ''timestamp'', ''frame'', ''game_time'']"

subsection \<open>Distance (\<^verbatim>\<open>calculate_distance\<close>, \<^verbatim>\<open>calculate_total_distance\<close>)\<close>

text \<open>
  \<^verbatim>\<open>np.sqrt((x2 - x1)**2 + (y2 - y1)**2)\<close>, every operation rounded, and the builtin
  \<^verbatim>\<open>sum\<close>, which adds from the left starting at 0.
\<close>

definition calculate_distance :: "rounding \<Rightarrow> real \<Rightarrow> real \<Rightarrow> real \<Rightarrow> real \<Rightarrow> real" where
  "calculate_distance fl x1 y1 x2 y2 =
     fl (sqrt (fl (fl ((fl (x2 - x1))\<^sup>2) + fl ((fl (y2 - y1))\<^sup>2))))"

definition py_sum :: "rounding \<Rightarrow> real list \<Rightarrow> real" where
  "py_sum fl xs = foldl (\<lambda>acc x. fl (acc + x)) 0 xs"

text \<open>
  \<^verbatim>\<open>DataFrame.sort_values(time_col)\<close> is a parameter: pandas' default algorithm is
  not stable, so the order it gives to rows of equal time is not fixed by the source.
  What a theorem needs of it is the hypothesis \<open>sorting\<close> below. The loop
  \<^verbatim>\<open>for i in range(1, len(x_coords))\<close> appends one distance per index.
\<close>

definition calculate_total_distance ::
  "rounding \<Rightarrow> (string \<Rightarrow> row list \<Rightarrow> row list) \<Rightarrow> dataframe \<Rightarrow> real" where
  "calculate_total_distance fl sort_values tracking_df =
     (if length (rows tracking_df) < 2 then 0
      else
        let x_col = find_column (columns tracking_df) x_names;
            y_col = find_column (columns tracking_df) y_names
        in if x_col = [] \<or> y_col = [] then 0
           else
             let time_col = find_column (columns tracking_df) time_names;
                 sorted_rows = (if time_col \<noteq> [] then sort_values time_col (rows tracking_df)
                                else rows tracking_df);
                 x_coords = map (\<lambda>r. r x_col) sorted_rows;
                 y_coords = map (\<lambda>r. r y_col) sorted_rows;
                 distances = map (\<lambda>i. calculate_distance fl
                                          (x_coords ! (i - 1)) (y_coords ! (i - 1))
                                          (x_coords ! i) (y_coords ! i))
                                 [1..<length x_coords]
             in py_sum fl distances)"

subsection \<open>Lateral movement (\<^verbatim>\<open>MovementMetrics._calculate_lateral_movement\<close>)\<close>

text \<open>
  \<^verbatim>\<open>sum(abs(x_coords[i] - x_coords[i-1]) for i in range(1, len(x_coords)))\<close> over
  \<^verbatim>\<open>tracking_df[x_col].values\<close>, the rows in the order they were passed in:
  \<^verbatim>\<open>calculate_all_metrics\<close> calls the function on the table it was given.
\<close>

definition calculate_lateral_movement :: "rounding \<Rightarrow> dataframe \<Rightarrow> real" where
  "calculate_lateral_movement fl tracking_df =
     (if length (rows tracking_df) < 2 then 0
      else
        let x_col = find_column (columns tracking_df) x_names
        in if x_col = [] then 0
           else
             let x_coords = map (\<lambda>r. r x_col) (rows tracking_df)
             in py_sum fl (map (\<lambda>i. \<bar>fl (x_coords ! i - x_coords ! (i - 1))\<bar>)
                               [1..<length x_coords]))"

subsection \<open>Direction changes (\<^verbatim>\<open>MovementMetrics.calculate_direction_changes\<close>)\<close>

text \<open>
  \<^verbatim>\<open>np.dot\<close> on two vectors of two components multiplies and adds in binary64. The
  library hands the work to a BLAS kernel, and whether the second product is rounded
  before the addition or fused into it depends on how that kernel was built. The routine
  is therefore a parameter \<open>dot\<close> of the definitions below; \<open>np_dot\<close> is the sequence
  with the fused second product and \<open>np_dot_rounded\<close> the one that rounds both products.
\<close>

type_synonym dot_product = "real \<times> real \<Rightarrow> real \<times> real \<Rightarrow> real"

definition np_dot :: "rounding \<Rightarrow> dot_product" where
  "np_dot fl v w = fl (fl (fst v * fst w) + snd v * snd w)"

definition np_dot_rounded :: "rounding \<Rightarrow> dot_product" where
  "np_dot_rounded fl v w = fl (fl (fst v * fst w) + fl (snd v * snd w))"

text \<open>
  The other numpy operations of the loop body: \<^verbatim>\<open>np.linalg.norm\<close> (the square root
  of a vector's dot product with itself), \<^verbatim>\<open>np.clip\<close> and \<^verbatim>\<open>np.degrees\<close>
  (multiplication by the binary64 constant 180/pi).
\<close>

definition linalg_norm :: "rounding \<Rightarrow> dot_product \<Rightarrow> real \<times> real \<Rightarrow> real" where
  "linalg_norm fl dot v = fl (sqrt (dot v v))"

definition np_clip :: "real \<Rightarrow> real \<Rightarrow> real \<Rightarrow> real" where
  "np_clip a a_min a_max = min a_max (max a a_min)"

definition np_degrees :: "rounding \<Rightarrow> real \<Rightarrow> real" where
  "np_degrees fl r = fl (r * fl (180 / pi))"

text \<open>
  \<^verbatim>\<open>cos_angle = np.dot(v1, v2) / (norm(v1) * norm(v2))\<close>, clipped to [-1, 1], then
  \<^verbatim>\<open>np.degrees(np.arccos(cos_angle))\<close>.
\<close>

definition turn_angle :: "rounding \<Rightarrow> dot_product \<Rightarrow> real \<times> real \<Rightarrow> real \<times> real \<Rightarrow> real" where
  "turn_angle fl dot v1 v2 =
     (let cos_angle = fl (dot v1 v2 / fl (linalg_norm fl dot v1 * linalg_norm fl dot v2));
          cos_angle = np_clip cos_angle (- 1) 1
      in np_degrees fl (fl (arccos cos_angle)))"

text \<open>
  The loop \<^verbatim>\<open>for i in range(2, len(x_coords))\<close> with its counter. Segments whose
  norm is not positive leave the counter alone.
\<close>

definition calculate_direction_changes ::
  "rounding \<Rightarrow> dot_product \<Rightarrow> (string \<Rightarrow> row list \<Rightarrow> row list) \<Rightarrow> dataframe \<Rightarrow> real \<Rightarrow> int" where
  "calculate_direction_changes fl dot sort_values tracking_df threshold =
     (if length (rows tracking_df) < 3 then 0
      else
        let x_col = find_column (columns tracking_df) x_names;
            y_col = find_column (columns tracking_df) y_names
        in if x_col = [] \<or> y_col = [] then 0
           else
             let time_col = find_column (columns tracking_df) time_names;
                 sorted_rows = (if time_col \<noteq> [] then sort_values time_col (rows tracking_df)
                                else rows tracking_df);
                 x_coords = map (\<lambda>r. r x_col) sorted_rows;
                 y_coords = map (\<lambda>r. r y_col) sorted_rows
             in foldl (\<lambda>direction_changes i.
                   let v1 = (fl (x_coords ! (i - 1) - x_coords ! (i - 2)),
                             fl (y_coords ! (i - 1) - y_coords ! (i - 2)));
                       v2 = (fl (x_coords ! i - x_coords ! (i - 1)),
                             fl (y_coords ! i - y_coords ! (i - 1)))
                   in if linalg_norm fl dot v1 > 0 \<and> linalg_norm fl dot v2 > 0
                      then (if turn_angle fl dot v1 v2 \<ge> threshold
                            then direction_changes + 1 else direction_changes)
                      else direction_changes)
                 0 [2..<length x_coords])"

subsection \<open>Reference notions and example data\<close>

text \<open>
  Round-to-nearest in binary64 has a relative error of at most \<^verbatim>\<open>2^-53\<close> on the
  normal range.
\<close>

definition binary64_accuracy :: "rounding \<Rightarrow> bool" where
  "binary64_accuracy fl \<longleftrightarrow> (\<forall>x. \<bar>fl x - x\<bar> \<le> \<bar>x\<bar> / 2 ^ 53)"

text \<open>The arithmetic mean of the scores of a batch, as a real number.\<close>

definition mean_score :: "store \<Rightarrow> addr list \<Rightarrow> real" where
  "mean_score h refs = real_of_int (\<Sum>a\<leftarrow>refs. score (h a)) / real (length refs)"

definition example_report :: "string \<Rightarrow> int \<Rightarrow> report" where
  "example_report name s =
     \<lparr>player_name = name, position = ''G'', metrics = [], scouting_notes = [],
      score = s, tier = score_to_tier s, rank = None\<rparr>"

text \<open>Four unranked reports with the scores 50, 90, 90, 70 at the addresses 0 to 3.\<close>

definition example_store :: store where
  "example_store a =
     (if a = 0 then example_report ''P0'' 50
      else if a = 1 then example_report ''P1'' 90
      else if a = 2 then example_report ''P2'' 90
      else example_report ''P3'' 70)"

definition ranked_example_store :: store where
  "ranked_example_store = fst (rank_players example_store [0, 1, 2, 3])"

text \<open>
  Example capabilities: one that returns 150 whatever the prompt, a client that answers
  with a fixed text, and a client whose call raises; and a response of 4301 nines.
\<close>

definition nines :: string where
  "nines = replicate 4301 (CHR ''9'')"

definition unclamped_provider :: ai_provider where
  "unclamped_provider = \<lparr>generate_report = (\<lambda>prompt. ''n/a''), generate_score = (\<lambda>prompt. 150)\<rparr>"

definition name_prompt :: "string \<Rightarrow> string \<Rightarrow> (string \<times> real) list \<Rightarrow> string" where
  "name_prompt nm pos ms = nm"

definition reply :: "string \<Rightarrow> string \<Rightarrow> string \<Rightarrow> exn + string" where
  "reply text system request = Inr text"

definition failing :: "string \<Rightarrow> string \<Rightarrow> exn + string" where
  "failing system request = Inl (Exception ''timeout'')"


text \<open>
  The consecutive pairs of a sequence of points, the rounded Euclidean distance between
  two points and the length of the path through a sequence of points.
\<close>

fun consecutive :: "'a list \<Rightarrow> ('a \<times> 'a) list" where
  "consecutive (p # q # ps) = (p, q) # consecutive (q # ps)"
| "consecutive ps = []"

definition euclid :: "rounding \<Rightarrow> real \<times> real \<Rightarrow> real \<times> real \<Rightarrow> real" where
  "euclid fl p q = calculate_distance fl (fst p) (snd p) (fst q) (snd q)"

definition path_length :: "rounding \<Rightarrow> (real \<times> real) list \<Rightarrow> real" where
  "path_length fl pts = py_sum fl (map (\<lambda>(p, q). euclid fl p q) (consecutive pts))"

text \<open>
  What is asked of \<^verbatim>\<open>sort_values\<close>: the result holds the same rows and is ascending
  in the chosen column. A stable sort is one instance.
\<close>

definition sorting :: "(string \<Rightarrow> row list \<Rightarrow> row list) \<Rightarrow> bool" where
  "sorting sort_values \<longleftrightarrow>
     (\<forall>c rs. mset (sort_values c rs) = mset rs \<and> sorted (map (\<lambda>r. r c) (sort_values c rs)))"

definition stable_sort_values :: "string \<Rightarrow> row list \<Rightarrow> row list" where
  "stable_sort_values c rs = sort_key (\<lambda>r. r c) rs"

text \<open>Binary64 represents every integer up to \<^verbatim>\<open>2^53\<close> in magnitude exactly.\<close>

definition exact_on_ints :: "rounding \<Rightarrow> bool" where
  "exact_on_ints fl \<longleftrightarrow> (\<forall>n::int. \<bar>n\<bar> \<le> 2 ^ 53 \<longrightarrow> fl (real_of_int n) = real_of_int n)"

text \<open>
  The consecutive triplets of a sequence of points, the rounded heading vector of a
  segment, the test the loop body applies to one triplet, and the number of triplets
  of a sequence that pass it.
\<close>

fun triplets :: "'a list \<Rightarrow> ('a \<times> 'a \<times> 'a) list" where
  "triplets (p # q # r # ps) = (p, q, r) # triplets (q # r # ps)"
| "triplets ps = []"

definition heading :: "rounding \<Rightarrow> real \<times> real \<Rightarrow> real \<times> real \<Rightarrow> real \<times> real" where
  "heading fl p q = (fl (fst q - fst p), fl (snd q - snd p))"

definition turns ::
  "rounding \<Rightarrow> dot_product \<Rightarrow> real \<Rightarrow> (real \<times> real) \<times> (real \<times> real) \<times> (real \<times> real) \<Rightarrow> bool" where
  "turns fl dot threshold t =
     (case t of (p, q, r) \<Rightarrow>
        linalg_norm fl dot (heading fl p q) > 0 \<and> linalg_norm fl dot (heading fl q r) > 0 \<and>
        turn_angle fl dot (heading fl p q) (heading fl q r) \<ge> threshold)"

definition direction_count :: "rounding \<Rightarrow> dot_product \<Rightarrow> real \<Rightarrow> (real \<times> real) list \<Rightarrow> int" where
  "direction_count fl dot threshold pts =
     int (length (filter (turns fl dot threshold) (triplets pts)))"

text \<open>
  Round-to-nearest, ties-to-even, to 53 significant bits with an unbounded exponent:
  \<open>fl64\<close> is the rounding of binary64 wherever no result overflows or underflows.
  \<open>pow2 e\<close> is \<open>2\<close> to the power \<open>e\<close> for an integer \<open>e\<close>, and \<open>rne\<close> rounds a
  real to the nearest integer.
\<close>

definition pow2 :: "int \<Rightarrow> real" where
  "pow2 e = (if 0 \<le> e then 2 ^ nat e else 1 / 2 ^ nat (- e))"

definition rne :: "real \<Rightarrow> int" where
  "rne x =
     (let n = \<lfloor>x\<rfloor>; d = x - real_of_int n
      in if d < 1 / 2 then n else if 1 / 2 < d then n + 1 else if even n then n else n + 1)"

definition fl64 :: rounding where
  "fl64 x =
     (if x = 0 then 0
      else let e = \<lfloor>log 2 \<bar>x\<bar>\<rfloor>
           in real_of_int (rne (x / pow2 (e - 52))) * pow2 (e - 52))"

text \<open>
  The rounding of binary64 with its smallest exponent: below \<^verbatim>\<open>2^-1022\<close> the
  representable numbers are the multiples of \<^verbatim>\<open>2^-1074\<close> (gradual underflow), so
  that the square of \<^verbatim>\<open>2^-600\<close> rounds to 0. It agrees with \<open>fl64\<close> from
  \<^verbatim>\<open>2^-1022\<close> upwards. The largest exponent is not modelled.
\<close>

definition binary64 :: rounding where
  "binary64 x =
     (if x = 0 then 0
      else let e = max \<lfloor>log 2 \<bar>x\<bar>\<rfloor> (- 1022)
           in real_of_int (rne (x / pow2 (e - 52))) * pow2 (e - 52))"

text \<open>
  What the theorems on direction changes ask of a rounding, and what rounding to nearest
  in binary64 provides below the overflow threshold: zero is exact, the sign is kept,
  every value is a multiple of \<^verbatim>\<open>2^-1074\<close>, and the error is at most the larger of
  a relative \<^verbatim>\<open>2^-53\<close> and an absolute \<^verbatim>\<open>2^-1075\<close>.
\<close>

definition binary64_rounding :: "rounding \<Rightarrow> bool" where
  "binary64_rounding fl \<longleftrightarrow>
     fl 0 = 0 \<and>
     (\<forall>x. 0 \<le> x \<longrightarrow> 0 \<le> fl x) \<and>
     (\<forall>x. \<exists>k::int. fl x = real_of_int k / 2 ^ 1074) \<and>
     (\<forall>x. \<bar>x\<bar> \<le> 2 ^ 1023 \<longrightarrow> \<bar>fl x - x\<bar> \<le> max (\<bar>x\<bar> / 2 ^ 53) (1 / 2 ^ 1075))"

text \<open>
  What they ask of the dot product, met by both rounding sequences: the zero vector gives
  zero, a vector with itself gives no negative value, every value is a multiple of
  \<^verbatim>\<open>2^-1074\<close>, and for products below \<^verbatim>\<open>2^1021\<close> in magnitude the error is at
  most three relative roundings of the products and four absolute ones.
\<close>

definition dot_accuracy :: "dot_product \<Rightarrow> bool" where
  "dot_accuracy dot \<longleftrightarrow>
     dot (0, 0) (0, 0) = 0 \<and>
     (\<forall>v. 0 \<le> dot v v) \<and>
     (\<forall>v w. \<exists>k::int. dot v w = real_of_int k / 2 ^ 1074) \<and>
     (\<forall>v w. \<bar>fst v * fst w\<bar> \<le> 2 ^ 1021 \<and> \<bar>snd v * snd w\<bar> \<le> 2 ^ 1021 \<longrightarrow>
        \<bar>dot v w - (fst v * fst w + snd v * snd w)\<bar>
          \<le> (\<bar>fst v * fst w\<bar> + \<bar>snd v * snd w\<bar>) * (3 / 2 ^ 53) + 4 / 2 ^ 1075)"

text \<open>
  A coordinate difference of moderate size: zero, or between \<^verbatim>\<open>2^-500\<close> and
  \<^verbatim>\<open>2^500\<close> in magnitude, so that no square or product of two of them underflows or
  overflows.
\<close>

definition moderate :: "real \<Rightarrow> bool" where
  "moderate x \<longleftrightarrow> x = 0 \<or> (1 / 2 ^ 500 \<le> \<bar>x\<bar> \<and> \<bar>x\<bar> \<le> 2 ^ 500)"

text \<open>A length whose square underflows in binary64.\<close>

definition tiny :: real where
  "tiny = 1 / 2 ^ 600"

text \<open>A row with the given time and position, and a table with the columns time, x, y.\<close>

definition sample :: "real \<Rightarrow> real \<Rightarrow> real \<Rightarrow> row" where
  "sample t x y c = (if c = ''time'' then t else if c = ''x'' then x else if c = ''y'' then y else 0)"

definition track :: "row list \<Rightarrow> dataframe" where
  "track rs = \<lparr>columns = [''time'', ''x'', ''y''], rows = rs\<rparr>"


section \<open>Properties\<close>

subsection \<open>Binary64 rounding\<close>

text \<open>
  The rounding function \<open>fl64\<close> meets the hypotheses that the theorems on the summary,
  the total distance and the lateral movement put on a rounding: it is exact on the
  integers up to \<^verbatim>\<open>2^53\<close> and has a relative error of at most \<^verbatim>\<open>2^-53\<close>.
\<close>

lemma pow2_powr: "pow2 e = 2 powr real_of_int e"
proof (cases "0 \<le> e")
  case True
  then have "2 powr real_of_int e = 2 powr real (nat e)" by simp
  also have "\<dots> = 2 ^ nat e" by (simp only: powr_realpow zero_less_numeral)
  finally show ?thesis using True by (simp add: pow2_def)
next
  case False
  then have "2 powr real_of_int e = 2 powr (- real (nat (- e)))" by simp
  also have "\<dots> = 1 / 2 powr real (nat (- e))" by (simp only: powr_minus_divide)
  also have "2 powr real (nat (- e)) = 2 ^ nat (- e)" by (simp only: powr_realpow zero_less_numeral)
  finally show ?thesis using False by (simp add: pow2_def)
qed

lemma pow2_pos: "0 < pow2 e"
  by (simp add: pow2_powr)

lemma pow2_add: "pow2 (a + b) = pow2 a * pow2 b"
  by (simp add: pow2_powr powr_add)

lemma pow2_mono: "a \<le> b \<Longrightarrow> pow2 a \<le> pow2 b"
  by (simp add: pow2_powr)

lemma binade:
  assumes "x \<noteq> 0" and "pow2 e \<le> \<bar>x\<bar>" and "\<bar>x\<bar> < pow2 (e + 1)"
  shows "\<lfloor>log 2 \<bar>x\<bar>\<rfloor> = e"
proof -
  from assms(1) have "0 < \<bar>x\<bar>" by simp
  then show ?thesis
    using assms(2,3) by (simp add: floor_log_eq_powr_iff pow2_powr)
qed

lemma fl64_at:
  assumes "x \<noteq> 0" and "pow2 e \<le> \<bar>x\<bar>" and "\<bar>x\<bar> < pow2 (e + 1)"
  shows "fl64 x = real_of_int (rne (x / pow2 (e - 52))) * pow2 (e - 52)"
  using assms(1) binade [OF assms] by (simp add: fl64_def Let_def)

lemma rne_unique:
  assumes "real_of_int n - 1 / 2 < x" and "x < real_of_int n + 1 / 2"
  shows "rne x = n"
proof (cases "real_of_int n \<le> x")
  case True
  with assms have "\<lfloor>x\<rfloor> = n" by linarith
  with assms show ?thesis by (simp add: rne_def Let_def)
next
  case False
  with assms have f: "\<lfloor>x\<rfloor> = n - 1" by linarith
  with assms False show ?thesis by (simp add: rne_def Let_def)
qed

lemma rne_of_int: "rne (real_of_int n) = n"
  by (rule rne_unique) simp_all

lemma rne_ge: "real_of_int m \<le> x \<Longrightarrow> m \<le> rne x"
proof -
  assume "real_of_int m \<le> x"
  then have "m \<le> \<lfloor>x\<rfloor>" by linarith
  moreover have "\<lfloor>x\<rfloor> \<le> rne x" by (simp add: rne_def Let_def)
  ultimately show ?thesis by simp
qed

lemma rne_close: "\<bar>real_of_int (rne y) - y\<bar> \<le> 1 / 2"
proof -
  have "real_of_int \<lfloor>y\<rfloor> \<le> y" and "y < real_of_int \<lfloor>y\<rfloor> + 1" by linarith+
  then show ?thesis by (auto simp: rne_def Let_def)
qed

lemma fl64_ge_pow2:
  assumes "pow2 k \<le> x"
  shows "pow2 k \<le> fl64 x"
proof -
  from assms pow2_pos [of k] have x: "0 < x" by linarith
  define e where "e = \<lfloor>log 2 \<bar>x\<bar>\<rfloor>"
  from assms x have "2 powr real_of_int k \<le> x" by (simp add: pow2_powr)
  with x have "real_of_int k \<le> log 2 x" by (simp add: le_log_iff)
  then have ke: "k \<le> e" using x by (simp add: e_def le_floor_iff)
  from x have "real_of_int e \<le> log 2 x" by (simp add: e_def)
  with x have ex: "pow2 e \<le> x" by (simp add: pow2_powr le_log_iff)
  have "pow2 e = pow2 52 * pow2 (e - 52)"
    using pow2_add [of 52 "e - 52"] by simp
  with ex have "pow2 52 * pow2 (e - 52) \<le> x" by simp
  then have "pow2 52 \<le> x / pow2 (e - 52)"
    using pow2_pos [of "e - 52"] by (simp add: pos_le_divide_eq)
  moreover have "pow2 52 = real_of_int (2 ^ 52)" by (simp add: pow2_def)
  ultimately have "real_of_int (2 ^ 52) \<le> x / pow2 (e - 52)" by simp
  then have "2 ^ 52 \<le> rne (x / pow2 (e - 52))" by (rule rne_ge)
  then have "real_of_int (2 ^ 52) \<le> real_of_int (rne (x / pow2 (e - 52)))"
    by (simp only: of_int_le_iff)
  then have "real_of_int (2 ^ 52) * pow2 (e - 52)
      \<le> real_of_int (rne (x / pow2 (e - 52))) * pow2 (e - 52)"
    using pow2_pos [of "e - 52"] by (simp only: mult_le_cancel_right_pos)
  moreover have "real_of_int (2 ^ 52) * pow2 (e - 52) = pow2 e"
    using pow2_add [of 52 "e - 52"] by (simp add: pow2_def)
  moreover have "fl64 x = real_of_int (rne (x / pow2 (e - 52))) * pow2 (e - 52)"
    using x by (simp add: fl64_def Let_def e_def)
  ultimately have "pow2 e \<le> fl64 x" by simp
  with pow2_mono [OF ke] show ?thesis by linarith
qed

lemma fl64_round:
  assumes "pow2 e \<le> \<bar>x\<bar>" and "\<bar>x\<bar> < pow2 (e + 1)"
    and "real_of_int m - 1 / 2 < x / pow2 (e - 52)" and "x / pow2 (e - 52) < real_of_int m + 1 / 2"
  shows "fl64 x = real_of_int m * pow2 (e - 52)"
proof -
  from assms(1) pow2_pos [of e] have "x \<noteq> 0" by auto
  from fl64_at [OF this assms(1,2)] rne_unique [OF assms(3,4)] show ?thesis by simp
qed

lemma fl64_one: "fl64 1 = 1"
  using fl64_round [of 0 1 "2 ^ 52"] by (simp add: pow2_def)

lemma fl64_two: "fl64 2 = 2"
  using fl64_round [of 1 2 "2 ^ 52"] by (simp add: pow2_def)

lemma fl64_zero: "fl64 0 = 0"
  by (simp add: fl64_def)

lemma fl64_top: "fl64 (2 ^ 53) = 2 ^ 53"
  using fl64_round [of 53 "2 ^ 53" "2 ^ 52"] by (simp add: pow2_def)

lemma fl64_bottom: "fl64 (- (2 ^ 53)) = - (2 ^ 53)"
  using fl64_round [of 53 "- (2 ^ 53)" "- (2 ^ 52)"] by (simp add: pow2_def)

lemma fl64_accuracy: "binary64_accuracy fl64"
  unfolding binary64_accuracy_def
proof
  fix x :: real
  show "\<bar>fl64 x - x\<bar> \<le> \<bar>x\<bar> / 2 ^ 53"
  proof (cases "x = 0")
    case True
    then show ?thesis by (simp add: fl64_def)
  next
    case False
    define e where "e = \<lfloor>log 2 \<bar>x\<bar>\<rfloor>"
    define s where "s = pow2 (e - 52)"
    have s: "0 < s" by (simp add: s_def pow2_pos)
    have f: "fl64 x = real_of_int (rne (x / s)) * s"
      using False by (simp add: fl64_def Let_def e_def s_def)
    have "fl64 x - x = (real_of_int (rne (x / s)) - x / s) * s"
      using s by (simp add: f field_simps)
    then have "\<bar>fl64 x - x\<bar> = \<bar>real_of_int (rne (x / s)) - x / s\<bar> * s"
      using s by (simp add: abs_mult)
    also have "\<dots> \<le> (1 / 2) * s"
      using s rne_close [of "x / s"] by (intro mult_right_mono) simp_all
    finally have 1: "\<bar>fl64 x - x\<bar> \<le> s / 2" by simp
    from False have "0 < \<bar>x\<bar>" by simp
    moreover have "real_of_int e \<le> log 2 \<bar>x\<bar>" by (simp add: e_def)
    ultimately have "pow2 e \<le> \<bar>x\<bar>" by (simp add: pow2_powr le_log_iff)
    moreover have "pow2 e = pow2 52 * s"
      using pow2_add [of 52 "e - 52"] by (simp add: s_def)
    ultimately have "2 ^ 52 * s \<le> \<bar>x\<bar>" by (simp add: pow2_def)
    then have "s / 2 \<le> \<bar>x\<bar> / 2 ^ 53" by simp
    with 1 show ?thesis by linarith
  qed
qed

lemma fl64_exact_ints: "exact_on_ints fl64"
  unfolding exact_on_ints_def
proof (intro allI impI)
  fix n :: int
  assume b: "\<bar>n\<bar> \<le> 2 ^ 53"
  show "fl64 (real_of_int n) = real_of_int n"
  proof (cases "n = 0")
    case True
    then show ?thesis by (simp add: fl64_def)
  next
    case False
    define x where "x = real_of_int n"
    define e where "e = \<lfloor>log 2 \<bar>x\<bar>\<rfloor>"
    from False have x1: "1 \<le> \<bar>x\<bar>" by (simp add: x_def)
    then have x0: "0 < \<bar>x\<bar>" by linarith
    from b have "real_of_int \<bar>n\<bar> \<le> real_of_int (2 ^ 53)" by (simp only: of_int_le_iff)
    then have xb: "\<bar>x\<bar> \<le> 2 ^ 53" by (simp add: x_def)
    have "0 \<le> log 2 \<bar>x\<bar>" using x1 by simp
    then have e0: "0 \<le> e" by (simp add: e_def)
    have "real_of_int e \<le> log 2 \<bar>x\<bar>" by (simp add: e_def)
    with x0 have pe: "pow2 e \<le> \<bar>x\<bar>" by (simp add: pow2_powr le_log_iff)
    have e53: "e \<le> 53"
    proof (rule ccontr)
      assume "\<not> e \<le> 53"
      then have "54 \<le> e" by simp
      then have "pow2 54 \<le> pow2 e" by (rule pow2_mono)
      with pe have "pow2 54 \<le> \<bar>x\<bar>" by (rule order_trans [rotated])
      then have "pow2 54 \<le> 2 ^ 53" using xb by (rule order_trans)
      then show False by (simp add: pow2_def)
    qed
    have f: "fl64 x = real_of_int (rne (x / pow2 (e - 52))) * pow2 (e - 52)"
      using False by (simp add: fl64_def Let_def e_def x_def)
    show ?thesis
    proof (cases "e \<le> 52")
      case True
      then have p: "pow2 (e - 52) = 1 / 2 ^ nat (52 - e)"
        by (cases "e = 52") (simp_all add: pow2_def)
      then have "x / pow2 (e - 52) = real_of_int (n * 2 ^ nat (52 - e))"
        by (simp add: x_def)
      then have "rne (x / pow2 (e - 52)) = n * 2 ^ nat (52 - e)"
        by (simp only: rne_of_int)
      then show ?thesis using f p by (simp add: x_def)
    next
      case False
      with e53 have e: "e = 53" by simp
      from pe have "2 ^ 53 \<le> \<bar>x\<bar>" using e by (simp add: pow2_def)
      with xb have "\<bar>x\<bar> = 2 ^ 53" by (rule order_antisym)
      then have "x = 2 ^ 53 \<or> x = - (2 ^ 53)" by linarith
      then have "fl64 x = x" using fl64_top fl64_bottom by auto
      then show ?thesis by (simp only: x_def)
    qed
  qed
qed

subsection \<open>Tier classification\<close>

text \<open>
  Claim C1. For every integer score the classifier returns S from 90 upwards, A on
  80..89, B on 70..79, C on 60..69, D on 50..59 and F below 50; the ten boundary scores
  90, 89, 80, 79, 70, 69, 60, 59, 50, 49 give S, A, A, B, B, C, C, D, D, F.
\<close>

theorem score_to_tier_ranges:
  "(90 \<le> s \<longrightarrow> score_to_tier s = ''S'') \<and>
   (80 \<le> s \<and> s \<le> 89 \<longrightarrow> score_to_tier s = ''A'') \<and>
   (70 \<le> s \<and> s \<le> 79 \<longrightarrow> score_to_tier s = ''B'') \<and>
   (60 \<le> s \<and> s \<le> 69 \<longrightarrow> score_to_tier s = ''C'') \<and>
   (50 \<le> s \<and> s \<le> 59 \<longrightarrow> score_to_tier s = ''D'') \<and>
   (s < 50 \<longrightarrow> score_to_tier s = ''F'') \<and>
   map score_to_tier [90, 89, 80, 79, 70, 69, 60, 59, 50, 49] =
     [''S'', ''A'', ''A'', ''B'', ''B'', ''C'', ''C'', ''D'', ''D'', ''F'']"
  by (simp add: score_to_tier_def)

theorem score_to_tier_ranges_witness:
  "(90::int) \<le> 95 \<and> score_to_tier 95 = ''S'' \<and>
   (80::int) \<le> 85 \<and> (85::int) \<le> 89 \<and> score_to_tier 85 = ''A'' \<and>
   (70::int) \<le> 75 \<and> (75::int) \<le> 79 \<and> score_to_tier 75 = ''B'' \<and>
   (60::int) \<le> 65 \<and> (65::int) \<le> 69 \<and> score_to_tier 65 = ''C'' \<and>
   (50::int) \<le> 55 \<and> (55::int) \<le> 59 \<and> score_to_tier 55 = ''D'' \<and>
   (12::int) < 50 \<and> score_to_tier 12 = ''F''"
  using score_to_tier_ranges [of 95] score_to_tier_ranges [of 85]
    score_to_tier_ranges [of 75] score_to_tier_ranges [of 65]
    score_to_tier_ranges [of 55] score_to_tier_ranges [of 12]
  by simp

text \<open>
  Claim C9. The classifier is total on the integers: it has no failing branch, every
  integer (inside or outside 0..100) is sent to one of the six tier letters, every score
  from 90 upwards (150 for one) to S and every negative score to F.
\<close>

theorem score_to_tier_total:
  "score_to_tier s \<in> {''S'', ''A'', ''B'', ''C'', ''D'', ''F''} \<and>
   (90 \<le> s \<longrightarrow> score_to_tier s = ''S'') \<and>
   (s < 0 \<longrightarrow> score_to_tier s = ''F'') \<and>
   score_to_tier 150 = ''S''"
  by (simp add: score_to_tier_def)

theorem score_to_tier_total_witness:
  "(90::int) \<le> 1000 \<and> score_to_tier 1000 = ''S'' \<and>
   (-7::int) < 0 \<and> score_to_tier (-7) = ''F''"
  using score_to_tier_total [of 1000] score_to_tier_total [of "-7"]
  by simp

subsection \<open>Ranking\<close>

lemma mset_sorted_reverse: "mset (sorted_reverse key xs) = mset xs"
  by (simp add: sorted_reverse_def)

lemma set_sorted_reverse: "set (sorted_reverse key xs) = set xs"
  by (simp add: sorted_reverse_def)

lemma length_sorted_reverse: "length (sorted_reverse key xs) = length xs"
  by (simp add: sorted_reverse_def)




lemma assign_ranks_frame: "a \<notin> set as \<Longrightarrow> assign_ranks h r as a = h a"
  by (induction as arbitrary: h r) auto

lemma assign_ranks_fields:
  "(assign_ranks h r as a)\<lparr>rank := x\<rparr> = (h a)\<lparr>rank := x\<rparr>"
  by (induction as arbitrary: h r) auto

lemma assign_ranks_score: "score (assign_ranks h r as a) = score (h a)"
  by (induction as arbitrary: h r) auto


lemma assign_ranks_member:
  "a \<in> set as \<Longrightarrow> \<exists>i<length as. assign_ranks h r as a = (h a)\<lparr>rank := Some (r + int i)\<rparr>"
proof (induction as arbitrary: h r)
  case Nil
  then show ?case by simp
next
  case (Cons b bs)
  show ?case
  proof (cases "a \<in> set bs")
    case True
    from Cons.IH [OF True, of "h(b := (h b)\<lparr>rank := Some r\<rparr>)" "r + 1"]
    obtain i where i: "i < length bs"
      "assign_ranks (h(b := (h b)\<lparr>rank := Some r\<rparr>)) (r + 1) bs a =
         ((h(b := (h b)\<lparr>rank := Some r\<rparr>)) a)\<lparr>rank := Some (r + 1 + int i)\<rparr>"
      by blast
    then have "assign_ranks h r (b # bs) a = (h a)\<lparr>rank := Some (r + int (Suc i))\<rparr>"
      by (simp add: add.assoc)
    with i(1) show ?thesis by (metis Suc_less_eq length_Cons)
  next
    case False
    with Cons.prems have "a = b" by simp
    with False have "assign_ranks h r (b # bs) a = (h a)\<lparr>rank := Some (r + int 0)\<rparr>"
      by (simp add: assign_ranks_frame)
    then show ?thesis by (metis length_Cons zero_less_Suc)
  qed
qed





text \<open>
  Claim C10. \<^verbatim>\<open>rank_players\<close> works on the report objects it is given: the returned
  list holds the same addresses as the argument (rearranged), every report of the batch
  has its \<^verbatim>\<open>rank\<close> set (added or overwritten) to a number between 1 and the batch
  length and is otherwise unchanged, and no other object of the store is touched.
\<close>

theorem rank_players_frame:
  "(case rank_players h reports of (h', out) \<Rightarrow>
      mset out = mset reports \<and>
      (\<forall>x. x \<in> set reports \<longrightarrow>
         (\<exists>r. 1 \<le> r \<and> r \<le> int (length reports) \<and> h' x = (h x)\<lparr>rank := Some r\<rparr>)) \<and>
      (\<forall>x. x \<notin> set reports \<longrightarrow> h' x = h x) \<and>
      (\<forall>x. player_name (h' x) = player_name (h x) \<and> position (h' x) = position (h x) \<and>
           metrics (h' x) = metrics (h x) \<and> scouting_notes (h' x) = scouting_notes (h x) \<and>
           score (h' x) = score (h x) \<and> tier (h' x) = tier (h x)))"
proof -
  define out where "out = sorted_reverse (\<lambda>x. score (h x)) reports"
  define h' where "h' = assign_ranks h 1 out"
  have rp: "rank_players h reports = (h', out)"
    by (simp add: rank_players_def out_def h'_def Let_def)
  have so: "set out = set reports" and len: "length out = length reports"
    by (simp_all add: out_def set_sorted_reverse length_sorted_reverse)
  have m: "mset out = mset reports"
    by (simp add: out_def mset_sorted_reverse)
  have inb: "\<exists>r. 1 \<le> r \<and> r \<le> int (length reports) \<and> h' x = (h x)\<lparr>rank := Some r\<rparr>"
    if "x \<in> set reports" for x
  proof -
    from that so have "x \<in> set out" by simp
    then obtain i where "i < length out" and "h' x = (h x)\<lparr>rank := Some (1 + int i)\<rparr>"
      unfolding h'_def using assign_ranks_member by blast
    then show ?thesis using len by (intro exI [of _ "1 + int i"]) simp
  qed
  have outb: "h' x = h x" if "x \<notin> set reports" for x
    using that so by (simp add: h'_def assign_ranks_frame)
  have fields: "player_name (h' x) = player_name (h x) \<and> position (h' x) = position (h x) \<and>
           metrics (h' x) = metrics (h x) \<and> scouting_notes (h' x) = scouting_notes (h x) \<and>
           score (h' x) = score (h x) \<and> tier (h' x) = tier (h x)" for x
  proof (cases "x \<in> set reports")
    case True
    from inb [OF True] obtain r where "h' x = (h x)\<lparr>rank := Some r\<rparr>" by blast
    then show ?thesis by simp
  next
    case False
    then show ?thesis by (simp add: outb)
  qed
  from m inb outb fields show ?thesis
    by (simp add: rp)
qed

theorem rank_players_frame_witness:
  "(1::nat) \<in> set [0, 1, 2, 3] \<and>
   (\<exists>r. 1 \<le> r \<and> r \<le> 4 \<and>
      fst (rank_players example_store [0, 1, 2, 3]) 1 = (example_store 1)\<lparr>rank := Some r\<rparr>) \<and>
   (7::nat) \<notin> set [0, 1, 2, 3] \<and>
   fst (rank_players example_store [0, 1, 2, 3]) 7 = example_store 7"
  using rank_players_frame [where h = example_store and reports = "[0, 1, 2, 3]"]
  by (simp split: prod.splits)

subsection \<open>Summary\<close>

lemma sum_update_count:
  "sum_list (map snd (AList.update k (dict_get d k 0 + 1) d)) = sum_list (map snd d) + (1::int)"
  by (induction d) (auto simp: dict_get_def)

lemma sum_count_tiers:
  "sum_list (map snd (count_tiers d rs)) = sum_list (map snd d) + int (length rs)"
  by (induction rs arbitrary: d) (simp_all add: sum_update_count)

lemma get_update_count:
  "dict_get (AList.update k v d) k' dflt = (if k' = k then v else dict_get d k' dflt)"
  by (simp add: dict_get_def update_conv')

lemma get_count_tiers:
  "dict_get (count_tiers d rs) t 0 = dict_get d t 0 + int (length (filter (\<lambda>r. tier r = t) rs))"
  by (induction rs arbitrary: d) (simp_all add: get_update_count)

lemma collect_top_entry:
  "\<forall>r\<in>set rs. rank r \<noteq> None \<Longrightarrow> \<exists>ys. collect top_entry rs = Inr ys \<and> length ys = length rs"
  by (induction rs) (auto simp: top_entry_def)

lemma sum_scores_bounds:
  "\<forall>a\<in>set refs. 0 \<le> score (h a) \<and> score (h a) \<le> 100 \<Longrightarrow>
   0 \<le> (\<Sum>a\<leftarrow>refs. score (h a)) \<and> (\<Sum>a\<leftarrow>refs. score (h a)) \<le> 100 * int (length refs)"
  by (induction refs) auto

lemma mean_score_bounds:
  assumes "refs \<noteq> []" and "\<forall>a\<in>set refs. 0 \<le> score (h a) \<and> score (h a) \<le> 100"
  shows "0 \<le> mean_score h refs \<and> mean_score h refs \<le> 100"
proof -
  let ?s = "\<Sum>a\<leftarrow>refs. score (h a)"
  from sum_scores_bounds [OF assms(2)]
  have b: "0 \<le> ?s" "?s \<le> 100 * int (length refs)" by simp_all
  from assms(1) have n: "0 < real (length refs)" by simp
  from b(2) have "real_of_int ?s \<le> 100 * real (length refs)"
    by (metis of_int_le_iff of_int_mult of_int_numeral of_int_of_nat_eq)
  with n have "real_of_int ?s / real (length refs) \<le> 100"
    by (simp add: pos_divide_le_eq)
  moreover from b(1) n have "0 \<le> real_of_int ?s / real (length refs)"
    by simp
  ultimately show ?thesis by (simp add: mean_score_def)
qed

text \<open>
  Claim C7. For every non-empty batch of ranked reports the summary is produced, its
  \<^verbatim>\<open>total_players\<close> is the batch length, the counts of \<^verbatim>\<open>tier_distribution\<close>
  add up to it (each count being the number of reports of that tier), and
  \<^verbatim>\<open>average_score\<close> is the rounded mean: for a rounding of binary64 accuracy it is
  within a relative \<^verbatim>\<open>2^-53\<close> of the arithmetic mean, hence within a relative
  tolerance of \<^verbatim>\<open>1e-9\<close> for every batch and within an absolute \<^verbatim>\<open>1e-9\<close> for
  scores in 0..100.
\<close>

theorem generate_summary_counts_mean:
  assumes "reports \<noteq> []"
    and "\<forall>a\<in>set reports. rank (h a) \<noteq> None"
    and "binary64_accuracy fl"
  shows "\<exists>s avg. generate_summary fl h reports = Inr s \<and>
           total_players s = int (length reports) \<and>
           sum_list (map snd (tier_distribution s)) = total_players s \<and>
           (\<forall>t. dict_get (tier_distribution s) t 0
                 = int (length (filter (\<lambda>a. tier (h a) = t) reports))) \<and>
           average_score s = Some avg \<and>
           \<bar>avg - mean_score h reports\<bar> \<le> \<bar>mean_score h reports\<bar> / 2 ^ 53 \<and>
           \<bar>avg - mean_score h reports\<bar> \<le> \<bar>mean_score h reports\<bar> / 10 ^ 9 \<and>
           ((\<forall>a\<in>set reports. 0 \<le> score (h a) \<and> score (h a) \<le> 100) \<longrightarrow>
              \<bar>avg - mean_score h reports\<bar> \<le> 1 / 10 ^ 9)"
proof -
  let ?rs = "map h reports"
  let ?m = "mean_score h reports"
  have "\<forall>r\<in>set (take 3 ?rs). rank r \<noteq> None"
  proof
    fix r assume "r \<in> set (take 3 ?rs)"
    then have "r \<in> set ?rs" by (rule in_set_takeD)
    with assms(2) show "rank r \<noteq> None" by auto
  qed
  from collect_top_entry [OF this]
  obtain top where top: "collect top_entry (take 3 ?rs) = Inr top" by blast
  define s where "s = \<lparr>total_players = int (length ?rs),
      tier_distribution = count_tiers [] ?rs, top_3_players = top,
      average_score = Some (fl ?m)\<rparr>"
  have m: "real_of_int (sum_list (map (score \<circ> h) reports)) / real (length reports) = ?m"
    by (simp add: mean_score_def comp_def)
  have g: "generate_summary fl h reports = Inr s"
    using assms(1) top by (simp add: generate_summary_def Let_def s_def m)
  have c: "sum_list (map snd (tier_distribution s)) = total_players s"
    by (simp add: s_def sum_count_tiers)
  have t: "\<forall>t. dict_get (tier_distribution s) t 0
                 = int (length (filter (\<lambda>a. tier (h a) = t) reports))"
  proof
    fix t
    have "dict_get (count_tiers [] ?rs) t 0 = int (length (filter (\<lambda>r. tier r = t) ?rs))"
      by (simp add: get_count_tiers) (simp add: dict_get_def)
    then show "dict_get (tier_distribution s) t 0
                 = int (length (filter (\<lambda>a. tier (h a) = t) reports))"
      by (simp add: s_def filter_map comp_def)
  qed
  from assms(3) have rel: "\<bar>fl ?m - ?m\<bar> \<le> \<bar>?m\<bar> / 2 ^ 53"
    by (simp add: binary64_accuracy_def)
  have ab: "\<bar>fl ?m - ?m\<bar> \<le> 1 / 10 ^ 9"
    if "\<forall>a\<in>set reports. 0 \<le> score (h a) \<and> score (h a) \<le> 100"
  proof -
    from mean_score_bounds [OF assms(1) that] have "\<bar>?m\<bar> \<le> 100" by simp
    then have "\<bar>?m\<bar> / 2 ^ 53 \<le> 100 / 2 ^ 53"
      by (simp add: divide_right_mono)
    also have "\<dots> \<le> (1::real) / 10 ^ 9" by simp
    finally show ?thesis using rel by linarith
  qed
  have "\<bar>?m\<bar> / 2 ^ 53 \<le> \<bar>?m\<bar> / 10 ^ 9"
    by (intro divide_left_mono) simp_all
  with rel have rel9: "\<bar>fl ?m - ?m\<bar> \<le> \<bar>?m\<bar> / 10 ^ 9" by (rule order_trans)
  from g c t rel rel9 ab show ?thesis
    by (intro exI [of _ s] exI [of _ "fl ?m"]) (simp add: s_def)
qed

theorem generate_summary_counts_mean_witness:
  "[1, 2, 3, 0 :: nat] \<noteq> [] \<and>
   binary64_accuracy fl64 \<and>
   map (\<lambda>a. rank (ranked_example_store a)) [1, 2, 3, 0] = [Some 1, Some 2, Some 3, Some 4] \<and>
   map (\<lambda>a. score (ranked_example_store a)) [1, 2, 3, 0] = [90, 90, 70, 50] \<and>
   (\<exists>s avg. generate_summary fl64 ranked_example_store [1, 2, 3, 0] = Inr s \<and>
      total_players s = 4 \<and>
      sum_list (map snd (tier_distribution s)) = 4 \<and>
      average_score s = Some avg \<and>
      \<bar>avg - mean_score ranked_example_store [1, 2, 3, 0]\<bar> \<le> 1 / 10 ^ 9)"
proof -
  have n: "[1, 2, 3, 0 :: nat] \<noteq> []" by simp
  have f: "binary64_accuracy fl64" by (rule fl64_accuracy)
  have r: "map (\<lambda>a. rank (ranked_example_store a)) [1, 2, 3, 0]
      = [Some 1, Some 2, Some 3, Some 4]"
    by (simp add: ranked_example_store_def rank_players_def sorted_reverse_def Let_def
        example_store_def example_report_def)
  have sc: "map (\<lambda>a. score (ranked_example_store a)) [1, 2, 3, 0] = [90, 90, 70, 50]"
    by (simp add: ranked_example_store_def rank_players_def Let_def assign_ranks_score
        example_store_def example_report_def)
  from r have rk: "\<forall>a\<in>set [1, 2, 3, 0]. rank (ranked_example_store a) \<noteq> None" by simp
  from sc have b: "\<forall>a\<in>set [1, 2, 3, 0].
      0 \<le> score (ranked_example_store a) \<and> score (ranked_example_store a) \<le> 100" by simp
  from generate_summary_counts_mean [OF n rk f] b n f r sc
  show ?thesis by fastforce
qed

text \<open>
  Claim C8. On the empty batch neither function fails: \<^verbatim>\<open>rank_players\<close> returns the
  empty list and leaves the store alone, and \<^verbatim>\<open>generate_summary\<close> returns the summary
  with \<^verbatim>\<open>total_players = 0\<close>, an empty \<^verbatim>\<open>tier_distribution\<close>, an empty top list
  and no \<^verbatim>\<open>average_score\<close>.
\<close>

theorem empty_batch:
  "rank_players h [] = (h, []) \<and>
   generate_summary fl h [] =
     Inr \<lparr>total_players = 0, tier_distribution = [], top_3_players = [], average_score = None\<rparr>"
  by (simp add: rank_players_def sorted_reverse_def generate_summary_def Let_def)

subsection \<open>The scoring boundary\<close>

lemma takeWhile_digits_append:
  "\<forall>c\<in>set ws. \<not> is_digit c \<Longrightarrow> takeWhile is_digit (xs @ ws) = takeWhile is_digit xs"
  by (induction xs) (auto simp: takeWhile_eq_Nil_iff)

lemma search_no_digit: "\<forall>c\<in>set s. \<not> is_digit c \<Longrightarrow> re_search_digits s = None"
proof -
  assume "\<forall>c\<in>set s. \<not> is_digit c"
  then have "dropWhile (\<lambda>c. \<not> is_digit c) s = []" by simp
  then show ?thesis unfolding re_search_digits_def by (simp only: list.case)
qed

lemma search_append_junk:
  "\<forall>c\<in>set ws. \<not> is_digit c \<Longrightarrow> re_search_digits (xs @ ws) = re_search_digits xs"
proof (induction xs)
  case Nil
  then show ?case by (simp add: search_no_digit)
next
  case (Cons x xs)
  then show ?case
    by (cases "is_digit x") (simp_all add: re_search_digits_def takeWhile_digits_append)
qed

lemma search_prepend_junk:
  "\<forall>c\<in>set ws. \<not> is_digit c \<Longrightarrow> re_search_digits (ws @ xs) = re_search_digits xs"
  by (induction ws) (simp_all add: re_search_digits_def)

lemma space_not_digit: "is_space c \<Longrightarrow> \<not> is_digit c"
  by (auto simp: is_space_def is_digit_def)

lemma strip_decompose:
  "\<exists>lead trail. s = lead @ strip s @ trail \<and> (\<forall>c\<in>set lead. is_space c) \<and> (\<forall>c\<in>set trail. is_space c)"
proof -
  define u where "u = dropWhile is_space s"
  have 1: "s = takeWhile is_space s @ u" by (simp add: u_def)
  have "rev (takeWhile is_space (rev u) @ dropWhile is_space (rev u)) = rev (rev u)"
    by (simp only: takeWhile_dropWhile_id)
  then have "rev (dropWhile is_space (rev u)) @ rev (takeWhile is_space (rev u)) = u"
    by (simp only: rev_append rev_rev_ident)
  then have 2: "u = strip s @ rev (takeWhile is_space (rev u))"
    by (simp only: strip_def u_def)
  have 3: "\<forall>c\<in>set (takeWhile is_space s). is_space c"
    by (auto dest: set_takeWhileD)
  have 4: "\<forall>c\<in>set (rev (takeWhile is_space (rev u))). is_space c"
    by (auto dest: set_takeWhileD)
  from 1 2 have "s = takeWhile is_space s @ strip s @ rev (takeWhile is_space (rev u))"
    by simp
  with 3 4 show ?thesis by blast
qed

lemma search_strip: "re_search_digits (strip s) = re_search_digits s"
proof -
  from strip_decompose [of s] obtain lead trail where
    s: "s = lead @ strip s @ trail" and l: "\<forall>c\<in>set lead. is_space c" and t: "\<forall>c\<in>set trail. is_space c"
    by blast
  from l t have l': "\<forall>c\<in>set lead. \<not> is_digit c" and t': "\<forall>c\<in>set trail. \<not> is_digit c"
    by (auto dest: space_not_digit)
  have "re_search_digits s = re_search_digits (lead @ strip s @ trail)"
    using s by simp
  also have "\<dots> = re_search_digits (strip s @ trail)"
    by (rule search_prepend_junk [OF l'])
  also have "\<dots> = re_search_digits (strip s)"
    by (rule search_append_junk [OF t'])
  finally show ?thesis by simp
qed

lemma search_first_run:
  assumes "\<forall>c\<in>set pre. \<not> is_digit c" and "ds \<noteq> []" and "\<forall>c\<in>set ds. is_digit c"
    and "post = [] \<or> \<not> is_digit (hd post)"
  shows "re_search_digits (pre @ ds @ post) = Some ds"
proof -
  from assms(2) obtain d ds' where ds: "ds = d # ds'" by (cases ds) auto
  with assms(3) have d: "is_digit d" by simp
  have "re_search_digits (pre @ ds @ post) = re_search_digits (ds @ post)"
    by (rule search_prepend_junk [OF assms(1)])
  also have "\<dots> = Some (takeWhile is_digit (ds @ post))"
    using d by (simp add: re_search_digits_def ds)
  also have "takeWhile is_digit (ds @ post) = ds @ takeWhile is_digit post"
    using assms(3) by (simp add: takeWhile_append2)
  also have "takeWhile is_digit post = []"
    using assms(4) by (cases post) auto
  finally show ?thesis by simp
qed

lemma anthropic_score_range:
  "0 \<le> anthropic_generate_score L create prompt \<and> anthropic_generate_score L create prompt \<le> 100"
  by (simp add: anthropic_generate_score_def Let_def split: sum.splits option.splits)

lemma decimal_nines:
  "foldl (\<lambda>n c. 10 * n + digit_value c) a (replicate k (CHR ''9'')) = (a + 1) * 10 ^ k - 1"
  by (induction k arbitrary: a) (simp_all add: digit_value_def algebra_simps)

lemma nines_length: "length nines = 4301"
  unfolding nines_def by (rule length_replicate)

lemma nines_digits: "\<forall>c\<in>set nines. is_digit c"
proof -
  have "\<forall>c\<in>set (replicate k (CHR ''9'')). is_digit c" for k
    by (simp add: is_digit_def)
  then show ?thesis unfolding nines_def .
qed

lemma nines_nonempty: "nines \<noteq> []"
proof -
  have "replicate k c \<noteq> []" if "0 < k" for k :: nat and c :: char
    using that by simp
  from this [of 4301 "CHR ''9''"] have "replicate 4301 (CHR ''9'') \<noteq> []"
    by (simp only: zero_less_numeral simp_thms)
  then show ?thesis unfolding nines_def .
qed

lemma nines_value: "max 0 (min 100 (decimal nines)) = 100"
proof -
  have "(100 :: int) + 1 \<le> 10 ^ 3" by simp
  also have "\<dots> \<le> 10 ^ 4301" by (rule power_increasing) simp_all
  finally have big: "(100 :: int) \<le> 10 ^ 4301 - 1" by linarith
  have "decimal nines = (0 + 1) * 10 ^ 4301 - 1"
    unfolding decimal_def nines_def by (rule decimal_nines)
  then have "decimal nines = 10 ^ 4301 - 1" by (simp only: add_0 mult_1)
  with big have "100 \<le> decimal nines" by (simp only:)
  then show ?thesis by (simp only: min.absorb1 max.absorb2)
qed

lemma search_all_digits:
  assumes "ds \<noteq> []" and "\<forall>c\<in>set ds. is_digit c"
  shows "re_search_digits ds = Some ds"
  using search_first_run [of "[]" ds "[]"] assms by simp

text \<open>
  Claim C3, as amended. \<^verbatim>\<open>AnthropicProvider.generate_score\<close> always returns a score
  in 0..100: the first run of decimal digits of the response text, read as an integer
  and clamped; and 50 when the text has no digit, when the run has more digits than the
  interpreter's conversion limit, or when the call raises.
  \<^verbatim>\<open>generate_player_report\<close> hands the score of the injected capability to the tier
  classifier and to the report unchanged, so the score of the report is in 0..100
  whenever the capability's \<^verbatim>\<open>generate_score\<close> is the provider's.
\<close>

theorem anthropic_score_clamped:
  "0 \<le> anthropic_generate_score L create prompt \<and>
   anthropic_generate_score L create prompt \<le> 100 \<and>
   (create score_system (scoring_prompt prompt) = Inl e \<longrightarrow>
      anthropic_generate_score L create prompt = 50) \<and>
   (create score_system (scoring_prompt prompt) = Inr resp \<and> (\<forall>c\<in>set resp. \<not> is_digit c) \<longrightarrow>
      anthropic_generate_score L create prompt = 50) \<and>
   (create score_system (scoring_prompt prompt) = Inr (pre @ ds @ post) \<and>
    (\<forall>c\<in>set pre. \<not> is_digit c) \<and> ds \<noteq> [] \<and> (\<forall>c\<in>set ds. is_digit c) \<and>
    (post = [] \<or> \<not> is_digit (hd post)) \<longrightarrow>
      anthropic_generate_score L create prompt
        = (if 0 < L \<and> L < length ds then 50 else max 0 (min 100 (decimal ds)))) \<and>
   score (generate_player_report gp ai nm pos ms) = generate_score ai (gp nm pos ms) \<and>
   tier (generate_player_report gp ai nm pos ms) = score_to_tier (generate_score ai (gp nm pos ms)) \<and>
   (generate_score ai = anthropic_generate_score L create \<longrightarrow>
      0 \<le> score (generate_player_report gp ai nm pos ms) \<and>
      score (generate_player_report gp ai nm pos ms) \<le> 100)"
proof -
  have a: "anthropic_generate_score L create prompt = 50"
    if "create score_system (scoring_prompt prompt) = Inl e"
    using that by (simp add: anthropic_generate_score_def)
  have b: "anthropic_generate_score L create prompt = 50"
    if "create score_system (scoring_prompt prompt) = Inr resp \<and> (\<forall>c\<in>set resp. \<not> is_digit c)"
    using that by (simp add: anthropic_generate_score_def search_strip search_no_digit)
  have c: "anthropic_generate_score L create prompt
        = (if 0 < L \<and> L < length ds then 50 else max 0 (min 100 (decimal ds)))"
    if "create score_system (scoring_prompt prompt) = Inr (pre @ ds @ post) \<and>
      (\<forall>c\<in>set pre. \<not> is_digit c) \<and> ds \<noteq> [] \<and> (\<forall>c\<in>set ds. is_digit c) \<and>
      (post = [] \<or> \<not> is_digit (hd post))"
  proof -
    from that have "re_search_digits (pre @ ds @ post) = Some ds"
      by (intro search_first_run) simp_all
    with that show ?thesis
      by (simp add: anthropic_generate_score_def search_strip py_int_def)
  qed
  have d: "score (generate_player_report gp ai nm pos ms) = generate_score ai (gp nm pos ms)"
    and t: "tier (generate_player_report gp ai nm pos ms)
        = score_to_tier (generate_score ai (gp nm pos ms))"
    by (simp_all add: generate_player_report_def Let_def)
  have r: "0 \<le> score (generate_player_report gp ai nm pos ms) \<and>
      score (generate_player_report gp ai nm pos ms) \<le> 100"
    if "generate_score ai = anthropic_generate_score L create"
    using that anthropic_score_range [of L create "gp nm pos ms"] by (simp add: d)
  from a b c d t r anthropic_score_range [of L create prompt] show ?thesis
    by blast
qed

theorem anthropic_score_clamped_witness:
  "failing score_system (scoring_prompt ''p'') = Inl (Exception ''timeout'') \<and>
   anthropic_generate_score default_max_str_digits failing ''p'' = 50 \<and>
   reply ''no score'' score_system (scoring_prompt ''p'') = Inr ''no score'' \<and>
   filter is_digit ''no score'' = [] \<and>
   anthropic_generate_score default_max_str_digits (reply ''no score'') ''p'' = 50 \<and>
   reply ''Score: 185/100'' score_system (scoring_prompt ''p'') = Inr (''Score: '' @ ''185'' @ ''/100'') \<and>
   anthropic_generate_score default_max_str_digits (reply ''Score: 185/100'') ''p'' = 100 \<and>
   anthropic_generate_score default_max_str_digits (reply ''about 7 of 10'') ''p'' = 7 \<and>
   length nines = 4301 \<and> filter (\<lambda>c. \<not> is_digit c) nines = [] \<and>
   anthropic_generate_score default_max_str_digits (reply nines) ''p'' = 50 \<and>
   anthropic_generate_score 0 (reply nines) ''p'' = 100 \<and>
   generate_score (anthropic_provider default_max_str_digits (reply ''Score: 185/100''))
     = anthropic_generate_score default_max_str_digits (reply ''Score: 185/100'') \<and>
   score (generate_player_report name_prompt
            (anthropic_provider default_max_str_digits (reply ''Score: 185/100'')) ''p'' ''G'' []) = 100"
proof -
  let ?L = default_max_str_digits
  have 1: "failing score_system (scoring_prompt ''p'') = Inl (Exception ''timeout'')"
    by (simp add: failing_def)
  have 2: "reply ''no score'' score_system (scoring_prompt ''p'') = Inr ''no score'' \<and>
      (\<forall>c\<in>set ''no score''. \<not> is_digit c)"
    by (simp add: reply_def is_digit_def)
  have 3: "reply ''Score: 185/100'' score_system (scoring_prompt ''p'') = Inr (''Score: '' @ ''185'' @ ''/100'') \<and>
    (\<forall>c\<in>set ''Score: ''. \<not> is_digit c) \<and> ''185'' \<noteq> [] \<and> (\<forall>c\<in>set ''185''. is_digit c) \<and>
    (''/100'' = [] \<or> \<not> is_digit (hd ''/100''))"
    by (simp add: reply_def is_digit_def)
  have 4: "generate_score (anthropic_provider ?L (reply ''Score: 185/100''))
     = anthropic_generate_score ?L (reply ''Score: 185/100'')"
    by (simp add: anthropic_provider_def)
  have 5: "decimal ''185'' = 185" and 13: "decimal ''7'' = 7"
    by (simp_all add: decimal_def digit_value_def)
  have 7: "reply ''about 7 of 10'' score_system (scoring_prompt ''p'') = Inr (''about '' @ ''7'' @ '' of 10'') \<and>
    (\<forall>c\<in>set ''about ''. \<not> is_digit c) \<and> ''7'' \<noteq> [] \<and> (\<forall>c\<in>set ''7''. is_digit c) \<and>
    ('' of 10'' = [] \<or> \<not> is_digit (hd '' of 10''))"
    by (simp add: reply_def is_digit_def)
  have 8: "reply nines score_system (scoring_prompt ''p'') = Inr ([] @ nines @ []) \<and>
    (\<forall>c\<in>set []. \<not> is_digit c) \<and> nines \<noteq> [] \<and> (\<forall>c\<in>set nines. is_digit c) \<and>
    ([] = [] \<or> \<not> is_digit (hd []))"
    using nines_nonempty nines_digits by (simp add: reply_def)
  note 9 = nines_length
  note 11 = nines_value
  have 12: "filter (\<lambda>c. \<not> is_digit c) nines = []"
    using nines_digits by (simp only: filter_empty_conv) blast
  from anthropic_score_clamped [where L = ?L and create = failing and prompt = "''p''"
      and e = "Exception ''timeout''"] 1
  have a: "anthropic_generate_score ?L failing ''p'' = 50" by blast
  from anthropic_score_clamped [where L = ?L and create = "reply ''no score''" and prompt = "''p''"
      and resp = "''no score''"] 2
  have b: "anthropic_generate_score ?L (reply ''no score'') ''p'' = 50" by blast
  from anthropic_score_clamped [where L = ?L and create = "reply ''Score: 185/100''" and prompt = "''p''"
      and pre = "''Score: ''" and ds = "''185''" and post = "''/100''"] 3
  have "anthropic_generate_score ?L (reply ''Score: 185/100'') ''p''
      = (if 0 < ?L \<and> ?L < length ''185'' then 50 else max 0 (min 100 (decimal ''185'')))"
    by blast
  with 5 have c: "anthropic_generate_score ?L (reply ''Score: 185/100'') ''p'' = 100"
    by (simp add: default_max_str_digits_def)
  from anthropic_score_clamped [where L = ?L and create = "reply ''about 7 of 10''" and prompt = "''p''"
      and pre = "''about ''" and ds = "''7''" and post = "'' of 10''"] 7
  have "anthropic_generate_score ?L (reply ''about 7 of 10'') ''p''
      = (if 0 < ?L \<and> ?L < length ''7'' then 50 else max 0 (min 100 (decimal ''7'')))"
    by blast
  with 13 have g: "anthropic_generate_score ?L (reply ''about 7 of 10'') ''p'' = 7"
    by (simp add: default_max_str_digits_def)
  from anthropic_score_clamped [where L = ?L and create = "reply nines" and prompt = "''p''"
      and pre = "[]" and ds = nines and post = "[]"] 8
  have "anthropic_generate_score ?L (reply nines) ''p''
      = (if 0 < ?L \<and> ?L < length nines then 50 else max 0 (min 100 (decimal nines)))"
    by blast
  with 9 have e: "anthropic_generate_score ?L (reply nines) ''p'' = 50"
    by (simp add: default_max_str_digits_def)
  from anthropic_score_clamped [where L = 0 and create = "reply nines" and prompt = "''p''"
      and pre = "[]" and ds = nines and post = "[]"] 8
  have "anthropic_generate_score 0 (reply nines) ''p''
      = (if (0 :: nat) < 0 \<and> 0 < length nines then 50 else max 0 (min 100 (decimal nines)))"
    by blast
  with 11 have f: "anthropic_generate_score 0 (reply nines) ''p'' = 100" by simp
  from anthropic_score_clamped [where L = ?L and create = "reply ''Score: 185/100''" and prompt = "''p''"
      and ai = "anthropic_provider ?L (reply ''Score: 185/100'')" and gp = name_prompt
      and nm = "''p''" and pos = "''G''" and ms = "[]"] 4 c
  have d: "score (generate_player_report name_prompt (anthropic_provider ?L (reply ''Score: 185/100''))
            ''p'' ''G'' []) = 100"
    by (simp add: name_prompt_def)
  have 6: "filter is_digit ''no score'' = []"
    by (simp add: is_digit_def)
  from 1 2 3 4 6 9 12 a b c g d e f show ?thesis by blast
qed

text \<open>
  The claim as first stated speaks of every injected capability and of every integer in
  the text. The clamp is inside the provider, not in \<^verbatim>\<open>generate_player_report\<close>: a
  capability that returns 150 puts 150 into the report and in front of the tier
  classifier. And inside the provider a response of 4301 nines, which holds an integer
  and would clamp to 100, gives the default 50 under the conversion limit of 4300 digits.
\<close>

theorem injected_score_counterexample:
  "score (generate_player_report name_prompt unclamped_provider ''Tester'' ''G'' []) = 150 \<and>
   tier (generate_player_report name_prompt unclamped_provider ''Tester'' ''G'' []) = ''S'' \<and>
   re_search_digits nines = Some nines \<and>
   max 0 (min 100 (decimal nines)) = 100 \<and>
   anthropic_generate_score default_max_str_digits (reply nines) ''p'' = 50"
proof -
  have 1: "score (generate_player_report name_prompt unclamped_provider ''Tester'' ''G'' []) = 150 \<and>
      tier (generate_player_report name_prompt unclamped_provider ''Tester'' ''G'' []) = ''S''"
    by (simp add: generate_player_report_def unclamped_provider_def score_to_tier_def)
  from nines_nonempty nines_digits
  have 2: "re_search_digits nines = Some nines" by (rule search_all_digits)
  note 3 = nines_value
  from nines_length
  have 4: "anthropic_generate_score default_max_str_digits (reply nines) ''p'' = 50"
    by (simp add: anthropic_generate_score_def reply_def search_strip 2 py_int_def
        default_max_str_digits_def)
  from 1 2 3 4 show ?thesis by blast
qed

subsection \<open>Total distance\<close>

lemma find_column_empty:
  "[] \<notin> set names \<Longrightarrow> find_column cols names = [] \<longleftrightarrow> set names \<inter> set cols = {}"
  by (induction names) auto

lemma find_column_first:
  "find_column cols names = c \<Longrightarrow> c \<noteq> [] \<Longrightarrow>
   \<exists>before after. names = before @ c # after \<and> c \<in> set cols \<and> set before \<inter> set cols = {}"
proof (induction names)
  case Nil
  then show ?case by simp
next
  case (Cons n ns)
  show ?case
  proof (cases "n \<in> set cols")
    case True
    with Cons.prems have "n = c" by simp
    with True show ?thesis by (intro exI [of _ "[]"] exI [of _ ns]) simp
  next
    case False
    with Cons.prems have "find_column cols ns = c" by simp
    from Cons.IH [OF this Cons.prems(2)] obtain before after where
      "ns = before @ c # after" "c \<in> set cols" "set before \<inter> set cols = {}" by blast
    with False show ?thesis by (intro exI [of _ "n # before"] exI [of _ after]) simp
  qed
qed

lemma consecutive_index:
  "map (\<lambda>i. f (zs ! (i - 1)) (zs ! i)) [1..<length zs] = map (\<lambda>(p, q). f p q) (consecutive zs)"
proof (induction zs rule: consecutive.induct)
  case (1 p q ps)
  have "[1..<Suc (Suc (length ps))] = 1 # [Suc 1..<Suc (Suc (length ps))]"
    by (rule upt_conv_Cons) simp
  also have "[Suc 1..<Suc (Suc (length ps))] = map Suc [1..<Suc (length ps)]"
    by (rule map_Suc_upt [symmetric])
  finally have "[1..<length (p # q # ps)] = 1 # map Suc [1..<length (q # ps)]"
    by simp
  then have "map (\<lambda>i. f ((p # q # ps) ! (i - 1)) ((p # q # ps) ! i)) [1..<length (p # q # ps)]
      = f p q # map (\<lambda>i. f ((p # q # ps) ! (Suc i - 1)) ((p # q # ps) ! Suc i)) [1..<length (q # ps)]"
    by (simp add: comp_def)
  also have "map (\<lambda>i. f ((p # q # ps) ! (Suc i - 1)) ((p # q # ps) ! Suc i)) [1..<length (q # ps)]
      = map (\<lambda>i. f ((q # ps) ! (i - 1)) ((q # ps) ! i)) [1..<length (q # ps)]"
    by (rule map_cong) (auto simp: nth_Cons')
  finally show ?case using 1 by simp
qed simp_all

lemma exact_numeral:
  assumes "exact_on_ints fl" and "numeral k \<le> (2 ^ 53 :: int)"
  shows "fl (numeral k) = numeral k" and "fl (- numeral k) = - numeral k"
proof -
  from assms have "fl (real_of_int (numeral k)) = real_of_int (numeral k)"
    unfolding exact_on_ints_def by (metis abs_numeral)
  then show "fl (numeral k) = numeral k" by simp
  from assms have "fl (real_of_int (- numeral k)) = real_of_int (- numeral k)"
    unfolding exact_on_ints_def by (metis abs_minus abs_numeral)
  then show "fl (- numeral k) = - numeral k" by simp
qed

lemma exact_zero_one:
  assumes "exact_on_ints fl"
  shows "fl 0 = 0" and "fl 1 = 1" and "fl (- 1) = - 1"
proof -
  from assms have "fl (real_of_int 0) = real_of_int 0" "fl (real_of_int 1) = real_of_int 1"
    "fl (real_of_int (- 1)) = real_of_int (- 1)"
    unfolding exact_on_ints_def by (metis abs_zero zero_le_numeral zero_le_power,
        metis abs_1 one_le_numeral one_le_power, metis abs_minus abs_1 one_le_numeral one_le_power)
  then show "fl 0 = 0" and "fl 1 = 1" and "fl (- 1) = - 1" by simp_all
qed

lemma sqrt_25: "sqrt 25 = 5"
proof -
  have "sqrt ((5::real)\<^sup>2) = 5" by (simp only: real_sqrt_abs abs_numeral)
  then show ?thesis by simp
qed

lemma euclid_3_4_5:
  assumes "exact_on_ints fl"
  shows "euclid fl (0, 0) (3, 4) = 5" and "euclid fl (3, 4) (0, 0) = 5"
  using assms
  by (simp_all add: euclid_def calculate_distance_def exact_numeral exact_zero_one sqrt_25)

lemma py_sum_single: "exact_on_ints fl \<Longrightarrow> py_sum fl [5] = 5"
  by (simp add: py_sum_def exact_numeral)

lemma mset_two: "mset xs = {#a, b#} \<Longrightarrow> xs = [a, b] \<or> xs = [b, a]"
proof -
  assume m: "mset xs = {#a, b#}"
  then have "size (mset xs) = 2" by simp
  then have "length xs = 2" by simp
  then obtain u v where xs: "xs = [u, v]"
    by (metis (no_types, opaque_lifting) One_nat_def Suc_1 length_0_conv length_Suc_conv)
  with m have "{#u, v#} = {#a, b#}" by simp
  then have "(u = a \<and> v = b) \<or> (u = b \<and> v = a)"
    by (auto simp: add_eq_conv_ex)
  with xs show ?thesis by auto
qed

lemma py_sum_exact: "py_sum (\<lambda>x. x) xs = sum_list xs"
proof -
  have "foldl (\<lambda>acc x. acc + x) a xs = a + sum_list xs" for a :: real
    by (induction xs arbitrary: a) simp_all
  from this [of 0] show ?thesis by (simp add: py_sum_def)
qed

lemma path_length_exact:
  "path_length (\<lambda>x. x) pts =
     (\<Sum>(p, q)\<leftarrow>consecutive pts. sqrt ((fst q - fst p)\<^sup>2 + (snd q - snd p)\<^sup>2))"
  by (simp add: path_length_def py_sum_exact euclid_def calculate_distance_def)

lemma total_distance_resolved:
  assumes "2 \<le> length (rows df)"
    and "find_column (columns df) x_names = xc" and "xc \<noteq> []"
    and "find_column (columns df) y_names = yc" and "yc \<noteq> []"
  shows "calculate_total_distance fl sort_values df =
     path_length fl (map (\<lambda>r. (r xc, r yc))
       (if find_column (columns df) time_names \<noteq> []
        then sort_values (find_column (columns df) time_names) (rows df) else rows df))"
proof -
  define samples where "samples =
       (if find_column (columns df) time_names \<noteq> []
        then sort_values (find_column (columns df) time_names) (rows df) else rows df)"
  define pts where "pts = map (\<lambda>r. (r xc, r yc)) samples"
  have "map (\<lambda>i. calculate_distance fl
                (map (\<lambda>r. r xc) samples ! (i - 1)) (map (\<lambda>r. r yc) samples ! (i - 1))
                (map (\<lambda>r. r xc) samples ! i) (map (\<lambda>r. r yc) samples ! i))
            [1..<length (map (\<lambda>r. r xc) samples)]
      = map (\<lambda>i. euclid fl (pts ! (i - 1)) (pts ! i)) [1..<length pts]"
    by (rule map_cong) (auto simp: pts_def euclid_def)
  also have "\<dots> = map (\<lambda>(p, q). euclid fl p q) (consecutive pts)"
    by (rule consecutive_index)
  finally have "py_sum fl (map (\<lambda>i. calculate_distance fl
                (map (\<lambda>r. r xc) samples ! (i - 1)) (map (\<lambda>r. r yc) samples ! (i - 1))
                (map (\<lambda>r. r xc) samples ! i) (map (\<lambda>r. r yc) samples ! i))
            [1..<length (map (\<lambda>r. r xc) samples)]) = path_length fl pts"
    by (simp add: path_length_def)
  with assms show ?thesis
    unfolding calculate_total_distance_def Let_def samples_def pts_def
    by (simp del: length_map)
qed

lemma sorting_stable: "sorting stable_sort_values"
  by (simp add: sorting_def stable_sort_values_def)

lemma exact_identity: "exact_on_ints (\<lambda>x. x)"
  by (simp add: exact_on_ints_def)

text \<open>
  Claim C4. \<^verbatim>\<open>calculate_total_distance\<close> returns 0 for a series of fewer than two
  samples and whenever no alias of the x column or of the y column is a column of the
  table. Otherwise it is the sum of the distances between consecutive samples, taken
  over the rows sorted by time (a rearrangement of the rows, ascending in the resolved
  time column; the rows as given when no time column resolves); in exact arithmetic
  that is the sum of the Euclidean distances. For two samples at (0,0) and (3,4), in
  either order and at any times, the result is exactly 5.
\<close>

theorem calculate_total_distance_path:
  assumes "sorting sort_values"
  shows "(length (rows df) < 2 \<longrightarrow> calculate_total_distance fl sort_values df = 0) \<and>
    (set x_names \<inter> set (columns df) = {} \<or> set y_names \<inter> set (columns df) = {} \<longrightarrow>
       calculate_total_distance fl sort_values df = 0) \<and>
    (2 \<le> length (rows df) \<and>
     find_column (columns df) x_names = xc \<and> xc \<noteq> [] \<and>
     find_column (columns df) y_names = yc \<and> yc \<noteq> [] \<longrightarrow>
       (\<exists>samples. mset samples = mset (rows df) \<and>
          (find_column (columns df) time_names \<noteq> [] \<longrightarrow>
             sorted (map (\<lambda>r. r (find_column (columns df) time_names)) samples)) \<and>
          (find_column (columns df) time_names = [] \<longrightarrow> samples = rows df) \<and>
          calculate_total_distance fl sort_values df
            = path_length fl (map (\<lambda>r. (r xc, r yc)) samples))) \<and>
    path_length (\<lambda>x. x) pts =
      (\<Sum>(p, q)\<leftarrow>consecutive pts. sqrt ((fst q - fst p)\<^sup>2 + (snd q - snd p)\<^sup>2)) \<and>
    (exact_on_ints fl \<and> rows df = [r1, r2] \<and>
     find_column (columns df) x_names = xc \<and> xc \<noteq> [] \<and>
     find_column (columns df) y_names = yc \<and> yc \<noteq> [] \<and>
     {(r1 xc, r1 yc), (r2 xc, r2 yc)} = {(0, 0), (3, 4)} \<longrightarrow>
       calculate_total_distance fl sort_values df = 5)"
proof -
  let ?d = "calculate_total_distance fl sort_values df"
  let ?tc = "find_column (columns df) time_names"
  have short: "?d = 0" if "length (rows df) < 2"
    using that by (simp add: calculate_total_distance_def)
  have unresolved: "?d = 0"
    if "set x_names \<inter> set (columns df) = {} \<or> set y_names \<inter> set (columns df) = {}"
  proof -
    have "[] \<notin> set x_names" and "[] \<notin> set y_names"
      by (simp_all add: x_names_def y_names_def)
    with that have "find_column (columns df) x_names = [] \<or> find_column (columns df) y_names = []"
      by (simp add: find_column_empty)
    then show ?thesis by (auto simp: calculate_total_distance_def Let_def)
  qed
  define samples where "samples = (if ?tc \<noteq> [] then sort_values ?tc (rows df) else rows df)"
  have perm: "mset samples = mset (rows df)"
    using assms by (simp add: samples_def sorting_def)
  have ordered: "?tc \<noteq> [] \<longrightarrow> sorted (map (\<lambda>r. r ?tc) samples)"
    using assms by (simp add: samples_def sorting_def)
  have same: "?tc = [] \<longrightarrow> samples = rows df"
    by (simp add: samples_def)
  have path: "?d = path_length fl (map (\<lambda>r. (r xc, r yc)) samples)"
    if "2 \<le> length (rows df) \<and>
     find_column (columns df) x_names = xc \<and> xc \<noteq> [] \<and>
     find_column (columns df) y_names = yc \<and> yc \<noteq> []"
    unfolding samples_def using that by (intro total_distance_resolved) simp_all
  have general: "\<exists>samples. mset samples = mset (rows df) \<and>
          (?tc \<noteq> [] \<longrightarrow> sorted (map (\<lambda>r. r ?tc) samples)) \<and>
          (?tc = [] \<longrightarrow> samples = rows df) \<and>
          ?d = path_length fl (map (\<lambda>r. (r xc, r yc)) samples)"
    if "2 \<le> length (rows df) \<and>
     find_column (columns df) x_names = xc \<and> xc \<noteq> [] \<and>
     find_column (columns df) y_names = yc \<and> yc \<noteq> []"
    using perm ordered same path [OF that] by blast
  have triangle: "?d = 5"
    if h: "exact_on_ints fl \<and> rows df = [r1, r2] \<and>
     find_column (columns df) x_names = xc \<and> xc \<noteq> [] \<and>
     find_column (columns df) y_names = yc \<and> yc \<noteq> [] \<and>
     {(r1 xc, r1 yc), (r2 xc, r2 yc)} = {(0, 0), (3, 4)}"
  proof -
    from h have e: "exact_on_ints fl" by simp
    from h have d: "?d = path_length fl (map (\<lambda>r. (r xc, r yc)) samples)"
      by (intro path) simp
    from h perm have "mset samples = {#r1, r2#}" by simp
    then have "samples = [r1, r2] \<or> samples = [r2, r1]" by (rule mset_two)
    moreover from h have "(r1 xc, r1 yc) = (0, 0) \<and> (r2 xc, r2 yc) = (3, 4) \<or>
        (r1 xc, r1 yc) = (3, 4) \<and> (r2 xc, r2 yc) = (0, 0)"
      by (auto simp: doubleton_eq_iff)
    ultimately have "map (\<lambda>r. (r xc, r yc)) samples = [(0, 0), (3, 4)] \<or>
        map (\<lambda>r. (r xc, r yc)) samples = [(3, 4), (0, 0)]"
      by auto
    then have "path_length fl (map (\<lambda>r. (r xc, r yc)) samples) = 5"
      using euclid_3_4_5 [OF e] py_sum_single [OF e]
      by (auto simp: path_length_def)
    with d show ?thesis by simp
  qed
  from short unresolved general triangle path_length_exact [of pts] show ?thesis
    by blast
qed

theorem calculate_total_distance_path_witness:
  "sorting stable_sort_values \<and> exact_on_ints fl64 \<and>
   rows (track [sample 1 3 4, sample 0 0 0]) = [sample 1 3 4, sample 0 0 0] \<and>
   find_column (columns (track [sample 1 3 4, sample 0 0 0])) x_names = ''x'' \<and>
   find_column (columns (track [sample 1 3 4, sample 0 0 0])) y_names = ''y'' \<and>
   calculate_total_distance fl64 stable_sort_values (track [sample 1 3 4, sample 0 0 0]) = 5 \<and>
   (\<exists>samples. mset samples = mset (rows (track [sample 1 3 4, sample 0 0 0])) \<and>
      sorted (map (\<lambda>r. r ''time'') samples) \<and>
      calculate_total_distance fl64 stable_sort_values (track [sample 1 3 4, sample 0 0 0])
        = path_length fl64 (map (\<lambda>r. (r ''x'', r ''y'')) samples)) \<and>
   length (rows (track [sample 1 3 4])) < 2 \<and>
   calculate_total_distance fl64 stable_sort_values (track [sample 1 3 4]) = 0 \<and>
   set x_names \<inter> set (columns \<lparr>columns = [''time'', ''y''], rows = [sample 1 3 4, sample 0 0 0]\<rparr>) = {} \<and>
   calculate_total_distance fl64 stable_sort_values
     \<lparr>columns = [''time'', ''y''], rows = [sample 1 3 4, sample 0 0 0]\<rparr> = 0"
proof -
  let ?df = "track [sample 1 3 4, sample 0 0 0]"
  let ?nox = "\<lparr>columns = [''time'', ''y''], rows = [sample 1 3 4, sample 0 0 0]\<rparr>"
  have r: "rows ?df = [sample 1 3 4, sample 0 0 0]" by (simp add: track_def)
  have x: "find_column (columns ?df) x_names = ''x''" and y: "find_column (columns ?df) y_names = ''y''"
    by (simp_all add: track_def x_names_def y_names_def)
  have p: "{(sample 1 3 4 ''x'', sample 1 3 4 ''y''), (sample 0 0 0 ''x'', sample 0 0 0 ''y'')}
      = {(0, 0), (3, 4)}"
    by (auto simp: sample_def)
  have l: "length (rows (track [sample 1 3 4])) < 2" by (simp add: track_def)
  have u: "set x_names \<inter> set (columns ?nox) = {}" by (simp add: x_names_def)
  from calculate_total_distance_path [OF sorting_stable, where fl = fl64 and df = ?df
      and xc = "''x''" and yc = "''y''" and ?r1.0 = "sample 1 3 4" and ?r2.0 = "sample 0 0 0"]
    fl64_exact_ints r x y p
  have a: "calculate_total_distance fl64 stable_sort_values ?df = 5" by simp
  from calculate_total_distance_path [OF sorting_stable, where fl = fl64
      and df = "track [sample 1 3 4]"] l
  have b: "calculate_total_distance fl64 stable_sort_values (track [sample 1 3 4]) = 0" by blast
  from calculate_total_distance_path [OF sorting_stable, where fl = fl64 and df = ?nox] u
  have c: "calculate_total_distance fl64 stable_sort_values ?nox = 0" by blast
  have t: "find_column (columns ?df) time_names = ''time''"
    by (simp add: track_def time_names_def)
  have n: "2 \<le> length (rows ?df)" by (simp add: track_def)
  have g: "2 \<le> length (rows ?df) \<and>
     find_column (columns ?df) x_names = ''x'' \<and> ''x'' \<noteq> [] \<and>
     find_column (columns ?df) y_names = ''y'' \<and> ''y'' \<noteq> []"
    using n x y by simp
  from calculate_total_distance_path [OF sorting_stable, where fl = fl64 and df = ?df
      and xc = "''x''" and yc = "''y''"]
  have "2 \<le> length (rows ?df) \<and>
     find_column (columns ?df) x_names = ''x'' \<and> ''x'' \<noteq> [] \<and>
     find_column (columns ?df) y_names = ''y'' \<and> ''y'' \<noteq> [] \<longrightarrow>
       (\<exists>samples. mset samples = mset (rows ?df) \<and>
          (find_column (columns ?df) time_names \<noteq> [] \<longrightarrow>
             sorted (map (\<lambda>r. r (find_column (columns ?df) time_names)) samples)) \<and>
          (find_column (columns ?df) time_names = [] \<longrightarrow> samples = rows ?df) \<and>
          calculate_total_distance fl64 stable_sort_values ?df
            = path_length fl64 (map (\<lambda>r. (r ''x'', r ''y'')) samples))"
    by blast
  with g obtain samples where "mset samples = mset (rows ?df)"
    "find_column (columns ?df) time_names \<noteq> [] \<longrightarrow>
             sorted (map (\<lambda>r. r (find_column (columns ?df) time_names)) samples)"
    "calculate_total_distance fl64 stable_sort_values ?df
            = path_length fl64 (map (\<lambda>r. (r ''x'', r ''y'')) samples)"
    by blast
  then have d: "\<exists>samples. mset samples = mset (rows ?df) \<and>
      sorted (map (\<lambda>r. r ''time'') samples) \<and>
      calculate_total_distance fl64 stable_sort_values ?df
        = path_length fl64 (map (\<lambda>r. (r ''x'', r ''y'')) samples)"
    unfolding t by (intro exI [of _ samples]) simp
  from sorting_stable fl64_exact_ints r x y a l b u c d show ?thesis by blast
qed

subsection \<open>Lateral movement\<close>

text \<open>
  Claim C6 (not met by the code). \<^verbatim>\<open>_calculate_lateral_movement\<close> does not sort by
  time: on three goalie samples with x = 0, 10, 1 at the times 0, 2, 1 it returns
  10 + 9 = 19, and on the same samples in time order 1 + 9 = 10. The sum over the
  time-sorted series, which the claim promises for both, is 10.
\<close>

theorem lateral_movement_input_order:
  assumes "exact_on_ints fl"
  shows "calculate_lateral_movement fl (track [sample 0 0 0, sample 2 10 0, sample 1 1 0]) = 19 \<and>
    calculate_lateral_movement fl (track [sample 0 0 0, sample 1 1 0, sample 2 10 0]) = 10 \<and>
    stable_sort_values ''time'' (rows (track [sample 0 0 0, sample 2 10 0, sample 1 1 0]))
      = rows (track [sample 0 0 0, sample 1 1 0, sample 2 10 0]) \<and>
    mset (rows (track [sample 0 0 0, sample 2 10 0, sample 1 1 0]))
      = mset (rows (track [sample 0 0 0, sample 1 1 0, sample 2 10 0]))"
proof -
  have idx: "[1..<3] = [1, 2]" by (simp add: upt_conv_Cons)
  have a: "calculate_lateral_movement fl (track [sample 0 0 0, sample 2 10 0, sample 1 1 0]) = 19"
    using assms
    by (simp add: calculate_lateral_movement_def track_def x_names_def Let_def idx sample_def
        py_sum_def exact_numeral exact_zero_one)
  have b: "calculate_lateral_movement fl (track [sample 0 0 0, sample 1 1 0, sample 2 10 0]) = 10"
    using assms
    by (simp add: calculate_lateral_movement_def track_def x_names_def Let_def idx sample_def
        py_sum_def exact_numeral exact_zero_one)
  have c: "stable_sort_values ''time'' (rows (track [sample 0 0 0, sample 2 10 0, sample 1 1 0]))
      = rows (track [sample 0 0 0, sample 1 1 0, sample 2 10 0])"
    by (simp add: stable_sort_values_def track_def sample_def)
  have d: "mset (rows (track [sample 0 0 0, sample 2 10 0, sample 1 1 0]))
      = mset (rows (track [sample 0 0 0, sample 1 1 0, sample 2 10 0]))"
    by (simp add: track_def)
  from a b c d show ?thesis by blast
qed

theorem lateral_movement_input_order_witness:
  "exact_on_ints fl64 \<and>
   calculate_lateral_movement fl64 (track [sample 0 0 0, sample 2 10 0, sample 1 1 0]) = 19 \<and>
   calculate_lateral_movement fl64 (track [sample 0 0 0, sample 1 1 0, sample 2 10 0]) = 10"
  using lateral_movement_input_order [OF fl64_exact_ints] fl64_exact_ints by blast

subsection \<open>Direction changes\<close>

text \<open>
  The rounding \<open>binary64\<close> agrees with \<open>fl64\<close> from \<^verbatim>\<open>2^-1022\<close> upwards, rounds to a
  multiple of \<^verbatim>\<open>2^-1074\<close> below, and meets \<open>binary64_rounding\<close>; both rounding
  sequences of the dot product meet \<open>dot_accuracy\<close>.
\<close>

lemma br_zero: "binary64_rounding fl \<Longrightarrow> fl 0 = 0"
  by (simp add: binary64_rounding_def)

lemma br_nonneg: "binary64_rounding fl \<Longrightarrow> 0 \<le> x \<Longrightarrow> 0 \<le> fl x"
  by (simp add: binary64_rounding_def)

lemma br_grid: "binary64_rounding fl \<Longrightarrow> \<exists>k::int. fl x = real_of_int k / 2 ^ 1074"
  by (simp add: binary64_rounding_def)

lemma br_abs:
  assumes "binary64_rounding fl" and "\<bar>x\<bar> \<le> 2 ^ 1023"
  shows "\<bar>fl x - x\<bar> \<le> \<bar>x\<bar> / 2 ^ 53 + 1 / 2 ^ 1075"
proof -
  from assms have "\<bar>fl x - x\<bar> \<le> max (\<bar>x\<bar> / 2 ^ 53) (1 / 2 ^ 1075)"
    unfolding binary64_rounding_def by blast
  moreover have "max (\<bar>x\<bar> / 2 ^ 53) (1 / 2 ^ 1075) \<le> \<bar>x\<bar> / 2 ^ 53 + 1 / 2 ^ 1075"
    by simp
  ultimately show ?thesis by (rule order_trans)
qed

lemma br_rel:
  assumes "binary64_rounding fl" and "1 / 2 ^ 1022 \<le> \<bar>x\<bar>" and "\<bar>x\<bar> \<le> 2 ^ 1023"
  shows "\<bar>fl x - x\<bar> \<le> \<bar>x\<bar> / 2 ^ 53"
proof -
  from assms have "\<bar>fl x - x\<bar> \<le> max (\<bar>x\<bar> / 2 ^ 53) (1 / 2 ^ 1075)"
    unfolding binary64_rounding_def by blast
  moreover have "(1 / 2 ^ 1022) / 2 ^ 53 \<le> \<bar>x\<bar> / 2 ^ 53"
    using assms(2) by (rule divide_right_mono) simp
  then have "1 / 2 ^ 1075 \<le> \<bar>x\<bar> / 2 ^ 53" by simp
  ultimately show ?thesis by simp
qed

lemma br_upper:
  assumes "binary64_rounding fl" and "1 / 2 ^ 1022 \<le> x" and "x \<le> 2 ^ 1023"
  shows "fl x \<le> x * (1 + 1 / 2 ^ 53)"
proof -
  have x: "0 < x" by (rule less_le_trans [OF _ assms(2)]) simp
  with assms have "\<bar>fl x - x\<bar> \<le> \<bar>x\<bar> / 2 ^ 53" by (intro br_rel) simp_all
  with x have "fl x - x \<le> x / 2 ^ 53" by linarith
  moreover have "x * (1 + 1 / 2 ^ 53) = x + x / 2 ^ 53" by (simp add: algebra_simps)
  ultimately show ?thesis by linarith
qed

lemma br_lower:
  assumes "binary64_rounding fl" and "1 / 2 ^ 1022 \<le> x" and "x \<le> 2 ^ 1023"
  shows "x * (1 - 1 / 2 ^ 53) \<le> fl x"
proof -
  have x: "0 < x" by (rule less_le_trans [OF _ assms(2)]) simp
  with assms have "\<bar>fl x - x\<bar> \<le> \<bar>x\<bar> / 2 ^ 53" by (intro br_rel) simp_all
  with x have "x - fl x \<le> x / 2 ^ 53" by linarith
  moreover have "x * (1 - 1 / 2 ^ 53) = x - x / 2 ^ 53" by (simp add: algebra_simps)
  ultimately show ?thesis by linarith
qed

lemma br_upper_abs:
  assumes "binary64_rounding fl" and "0 \<le> x" and "x \<le> 2 ^ 1023"
  shows "fl x \<le> x * (1 + 1 / 2 ^ 53) + 1 / 2 ^ 1075"
proof -
  from assms have "\<bar>fl x - x\<bar> \<le> \<bar>x\<bar> / 2 ^ 53 + 1 / 2 ^ 1075" by (intro br_abs) simp_all
  with assms(2) have "fl x - x \<le> x / 2 ^ 53 + 1 / 2 ^ 1075" by linarith
  moreover have "x * (1 + 1 / 2 ^ 53) = x + x / 2 ^ 53" by (simp add: algebra_simps)
  ultimately show ?thesis by linarith
qed

lemma moderate_rel:
  assumes "binary64_rounding fl" and "moderate x"
  shows "\<bar>fl x - x\<bar> \<le> \<bar>x\<bar> / 2 ^ 53"
proof (cases "x = 0")
  case True
  then show ?thesis using br_zero [OF assms(1)] by simp
next
  case False
  with assms(2) have lo: "1 / 2 ^ 500 \<le> \<bar>x\<bar>" and hi: "\<bar>x\<bar> \<le> 2 ^ 500"
    by (simp_all add: moderate_def)
  have "(1 / 2 ^ 1022 :: real) \<le> 1 / 2 ^ 500" by simp
  then have 1: "1 / 2 ^ 1022 \<le> \<bar>x\<bar>" using lo by (rule order_trans)
  have "(2 ^ 500 :: real) \<le> 2 ^ 1023" by simp
  with hi have 2: "\<bar>x\<bar> \<le> 2 ^ 1023" by (rule order_trans)
  from assms(1) 1 2 show ?thesis by (rule br_rel)
qed

lemma log2_pow2: "log 2 (pow2 e) = real_of_int e"
  by (simp add: pow2_powr)

lemma binary64_normal:
  assumes "pow2 (- 1022) \<le> \<bar>x\<bar>"
  shows "binary64 x = fl64 x"
proof -
  from pow2_pos [of "- 1022"] assms have pos: "0 < \<bar>x\<bar>" by linarith
  then have x0: "x \<noteq> 0" by auto
  have "log 2 (pow2 (- 1022)) \<le> log 2 \<bar>x\<bar>"
    using assms pow2_pos [of "- 1022"] pos by simp
  then have "real_of_int (- 1022) \<le> log 2 \<bar>x\<bar>" by (simp only: log2_pow2)
  then have "- 1022 \<le> \<lfloor>log 2 \<bar>x\<bar>\<rfloor>" by (simp only: le_floor_iff)
  then have "max \<lfloor>log 2 \<bar>x\<bar>\<rfloor> (- 1022) = \<lfloor>log 2 \<bar>x\<bar>\<rfloor>" by simp
  then show ?thesis by (simp add: binary64_def fl64_def Let_def)
qed

lemma binary64_subnormal:
  assumes "x \<noteq> 0" and "\<bar>x\<bar> < pow2 (- 1022)"
  shows "binary64 x = real_of_int (rne (x / pow2 (- 1074))) * pow2 (- 1074)"
proof -
  from assms(1) have pos: "0 < \<bar>x\<bar>" by simp
  have "log 2 \<bar>x\<bar> < log 2 (pow2 (- 1022))"
    using assms(2) pow2_pos [of "- 1022"] pos by simp
  then have "log 2 \<bar>x\<bar> < real_of_int (- 1022)" by (simp only: log2_pow2)
  then have "\<lfloor>log 2 \<bar>x\<bar>\<rfloor> < - 1022" by (simp only: floor_less_iff)
  then have "max \<lfloor>log 2 \<bar>x\<bar>\<rfloor> (- 1022) = - 1022" by simp
  then show ?thesis using assms(1) by (simp add: binary64_def Let_def)
qed

lemma binary64_form:
  assumes "x \<noteq> 0"
  shows "\<exists>e. - 1022 \<le> e \<and> binary64 x = real_of_int (rne (x / pow2 (e - 52))) * pow2 (e - 52)"
proof -
  define e where "e = max \<lfloor>log 2 \<bar>x\<bar>\<rfloor> (- 1022)"
  have "- 1022 \<le> e" by (simp add: e_def)
  moreover have "binary64 x = real_of_int (rne (x / pow2 (e - 52))) * pow2 (e - 52)"
    using assms by (simp add: binary64_def Let_def e_def)
  ultimately show ?thesis by blast
qed

lemma binary64_zero: "binary64 0 = 0"
  by (simp add: binary64_def)

lemma binary64_nonneg: "0 \<le> x \<Longrightarrow> 0 \<le> binary64 x"
proof (cases "x = 0")
  case True
  then show ?thesis by (simp add: binary64_zero)
next
  case False
  assume x: "0 \<le> x"
  from binary64_form [OF False] obtain e where
    e: "binary64 x = real_of_int (rne (x / pow2 (e - 52))) * pow2 (e - 52)" by blast
  have "real_of_int 0 \<le> x / pow2 (e - 52)" using x pow2_pos [of "e - 52"] by simp
  then have "0 \<le> rne (x / pow2 (e - 52))" by (rule rne_ge)
  then show ?thesis unfolding e using pow2_pos [of "e - 52"] by simp
qed

lemma pow2_bottom: "pow2 (- 1074) = 1 / 2 ^ 1074"
  by (simp add: pow2_def)

lemma binary64_grid: "\<exists>k::int. binary64 x = real_of_int k / 2 ^ 1074"
proof (cases "x = 0")
  case True
  then have "binary64 x = real_of_int 0 / 2 ^ 1074" by (simp add: binary64_zero)
  then show ?thesis by blast
next
  case False
  from binary64_form [OF False] obtain e where e0: "- 1022 \<le> e" and
    e: "binary64 x = real_of_int (rne (x / pow2 (e - 52))) * pow2 (e - 52)" by blast
  have "e - 52 = (e + 1022) + (- 1074)" by simp
  then have "pow2 (e - 52) = pow2 (e + 1022) * pow2 (- 1074)" by (simp only: pow2_add)
  moreover have "pow2 (e + 1022) = real_of_int (2 ^ nat (e + 1022))"
    using e0 by (simp add: pow2_def)
  ultimately have "binary64 x
      = real_of_int (rne (x / pow2 (e - 52)) * 2 ^ nat (e + 1022)) / 2 ^ 1074"
    unfolding e by (simp add: pow2_bottom)
  then show ?thesis by blast
qed

lemma binary64_error:
  "\<bar>binary64 x - x\<bar> \<le> max (\<bar>x\<bar> / 2 ^ 53) (1 / 2 ^ 1075)"
proof (cases "pow2 (- 1022) \<le> \<bar>x\<bar>")
  case True
  have "\<bar>fl64 x - x\<bar> \<le> \<bar>x\<bar> / 2 ^ 53"
    using fl64_accuracy unfolding binary64_accuracy_def by blast
  also have "\<dots> \<le> max (\<bar>x\<bar> / 2 ^ 53) (1 / 2 ^ 1075)" by (rule max.cobounded1)
  finally show ?thesis by (simp only: binary64_normal [OF True])
next
  case False
  then have small: "\<bar>x\<bar> < pow2 (- 1022)" by simp
  show ?thesis
  proof (cases "x = 0")
    case True
    then show ?thesis by (simp add: binary64_zero)
  next
    case False
    define y where "y = x / pow2 (- 1074)"
    have x: "x = y * pow2 (- 1074)" using pow2_pos [of "- 1074"] by (simp add: y_def)
    have "binary64 x = real_of_int (rne y) * pow2 (- 1074)"
      unfolding y_def by (rule binary64_subnormal [OF False small])
    then have "binary64 x - x = real_of_int (rne y) * pow2 (- 1074) - y * pow2 (- 1074)"
      using x by simp
    then have "binary64 x - x = (real_of_int (rne y) - y) * pow2 (- 1074)"
      by (simp add: algebra_simps)
    then have "\<bar>binary64 x - x\<bar> = \<bar>real_of_int (rne y) - y\<bar> * pow2 (- 1074)"
      using pow2_pos [of "- 1074"] by (simp add: abs_mult)
    also have "\<dots> \<le> (1 / 2) * pow2 (- 1074)"
      using rne_close [of y] pow2_pos [of "- 1074"] by (intro mult_right_mono) simp_all
    also have "\<dots> = 1 / 2 ^ 1075" by (simp add: pow2_bottom)
    also have "\<dots> \<le> max (\<bar>x\<bar> / 2 ^ 53) (1 / 2 ^ 1075)" by (rule max.cobounded2)
    finally show ?thesis .
  qed
qed

lemma binary64_meets: "binary64_rounding binary64"
  unfolding binary64_rounding_def
  using binary64_zero binary64_nonneg binary64_grid binary64_error by blast

lemma fused_error_sum:
  fixes a b u h :: real
  assumes "0 \<le> a" and "0 \<le> b" and "0 \<le> u" and "u \<le> 1" and "0 \<le> h"
  shows "(a + (a * u + h) + b) * u + h + (a * u + h) \<le> (a + b) * (3 * u) + 4 * h"
proof -
  have 0: "0 \<le> a * u" and 3: "0 \<le> b * u" using assms by simp_all
  have 1: "(a * u) * u \<le> a * u" using assms(4) 0 by (rule mult_left_le)
  have 2: "h * u \<le> h" using assms(4) assms(5) by (rule mult_left_le)
  have "(a + (a * u + h) + b) * u + h + (a * u + h)
      = 2 * (a * u) + (a * u) * u + b * u + h * u + 2 * h"
    by (simp add: algebra_simps)
  moreover have "(a + b) * (3 * u) + 4 * h = 3 * (a * u) + 3 * (b * u) + 4 * h"
    by (simp add: algebra_simps)
  ultimately show ?thesis using 0 1 2 3 assms(5) by linarith
qed

lemma rounded_error_sum:
  fixes a b u h :: real
  assumes "0 \<le> a" and "0 \<le> b" and "0 \<le> u" and "u \<le> 1 / 2" and "0 \<le> h"
  shows "((a + (a * u + h)) + (b + (b * u + h))) * u + h + ((a * u + h) + (b * u + h))
    \<le> (a + b) * (3 * u) + 4 * h"
proof -
  from assms(4) have u1: "u \<le> 1" by simp
  have 0: "0 \<le> a * u" and 3: "0 \<le> b * u" and 4: "0 \<le> h * u" using assms by simp_all
  have 1: "(a * u) * u \<le> a * u" using u1 0 by (rule mult_left_le)
  have 5: "(b * u) * u \<le> b * u" using u1 3 by (rule mult_left_le)
  have "h * u \<le> h * (1 / 2)" using assms(4) assms(5) by (rule mult_left_mono)
  then have 2: "2 * (h * u) \<le> h" by simp
  have "((a + (a * u + h)) + (b + (b * u + h))) * u + h + ((a * u + h) + (b * u + h))
      = 2 * (a * u) + 2 * (b * u) + (a * u) * u + (b * u) * u + 2 * (h * u) + 3 * h"
    by (simp add: algebra_simps)
  moreover have "(a + b) * (3 * u) + 4 * h = 3 * (a * u) + 3 * (b * u) + 4 * h"
    by (simp add: algebra_simps)
  ultimately show ?thesis using 0 1 2 3 5 assms(5) by linarith
qed

lemma br_abs_value:
  assumes "binary64_rounding fl" and "\<bar>x\<bar> \<le> 2 ^ 1023"
  shows "\<bar>fl x\<bar> \<le> \<bar>x\<bar> + (\<bar>x\<bar> * (1 / 2 ^ 53) + 1 / 2 ^ 1075)"
proof -
  from br_abs [OF assms] have "\<bar>fl x - x\<bar> \<le> \<bar>x\<bar> * (1 / 2 ^ 53) + 1 / 2 ^ 1075" by simp
  then show ?thesis by linarith
qed

lemma product_range:
  fixes a b :: real
  assumes "a \<le> 2 ^ 1021" and "b \<le> 2 ^ 1021" and "0 \<le> a" and "0 \<le> b"
  shows "(a + (a * (1 / 2 ^ 53) + 1 / 2 ^ 1075)) + (b + (b * (1 / 2 ^ 53) + 1 / 2 ^ 1075)) \<le> 2 ^ 1023"
proof -
  define B :: real where "B = 2 ^ 1021"
  define h :: real where "h = 1 / 2 ^ 1075"
  from assms(1) assms(2) have ab: "a \<le> B" "b \<le> B" by (simp_all add: B_def)
  have "a * (1 / 2 ^ 53) \<le> a * (1 / 2)" using assms(3) by (intro mult_left_mono) simp_all
  with ab(1) have 1: "2 * (a * (1 / 2 ^ 53)) \<le> B" by simp
  have "b * (1 / 2 ^ 53) \<le> b * (1 / 2)" using assms(4) by (intro mult_left_mono) simp_all
  with ab(2) have 2: "2 * (b * (1 / 2 ^ 53)) \<le> B" by simp
  have 3: "3 * B + 2 * h \<le> 2 ^ 1023" by (simp add: B_def h_def)
  from ab 1 2 3 show ?thesis unfolding h_def [symmetric] by linarith
qed

lemma np_dot_meets:
  assumes br: "binary64_rounding fl"
  shows "dot_accuracy (np_dot fl)"
proof -
  have z: "np_dot fl (0, 0) (0, 0) = 0"
    by (simp add: np_dot_def br_zero [OF br])
  have n: "0 \<le> np_dot fl v v" for v
  proof -
    have "0 \<le> fl (fst v * fst v)" by (rule br_nonneg [OF br]) simp
    then have "0 \<le> fl (fst v * fst v) + snd v * snd v" by simp
    then show ?thesis unfolding np_dot_def by (rule br_nonneg [OF br])
  qed
  have g: "\<exists>k::int. np_dot fl v w = real_of_int k / 2 ^ 1074" for v w
    unfolding np_dot_def by (rule br_grid [OF br])
  have e: "\<bar>np_dot fl v w - (fst v * fst w + snd v * snd w)\<bar>
          \<le> (\<bar>fst v * fst w\<bar> + \<bar>snd v * snd w\<bar>) * (3 / 2 ^ 53) + 4 / 2 ^ 1075"
    if h: "\<bar>fst v * fst w\<bar> \<le> 2 ^ 1021 \<and> \<bar>snd v * snd w\<bar> \<le> 2 ^ 1021" for v w
  proof -
    define x where "x = fst v * fst w"
    define y where "y = snd v * snd w"
    define u :: real where "u = 1 / 2 ^ 53"
    define h :: real where "h = 1 / 2 ^ 1075"
    define t where "t = fl x + y"
    from h have xb: "\<bar>x\<bar> \<le> 2 ^ 1021" and yb: "\<bar>y\<bar> \<le> 2 ^ 1021" by (simp_all add: x_def y_def)
    have "(2 ^ 1021 :: real) \<le> 2 ^ 1023" by simp
    with xb have xr: "\<bar>x\<bar> \<le> 2 ^ 1023" by (rule order_trans)
    have e1: "\<bar>fl x - x\<bar> \<le> \<bar>x\<bar> * u + h"
      using br_abs [OF br xr] by (simp add: u_def h_def)
    have v1: "\<bar>fl x\<bar> \<le> \<bar>x\<bar> + (\<bar>x\<bar> * u + h)"
      using br_abs_value [OF br xr] by (simp add: u_def h_def)
    then have tb: "\<bar>t\<bar> \<le> \<bar>x\<bar> + (\<bar>x\<bar> * u + h) + \<bar>y\<bar>" unfolding t_def by linarith
    have "0 \<le> \<bar>y\<bar> * u + h" by (simp add: u_def h_def)
    with tb have "\<bar>t\<bar> \<le> (\<bar>x\<bar> + (\<bar>x\<bar> * u + h)) + (\<bar>y\<bar> + (\<bar>y\<bar> * u + h))" by linarith
    also have "\<dots> \<le> 2 ^ 1023"
      unfolding u_def h_def using xb yb by (intro product_range) simp_all
    finally have tr: "\<bar>t\<bar> \<le> 2 ^ 1023" .
    have "\<bar>fl t - t\<bar> \<le> \<bar>t\<bar> * u + h"
      using br_abs [OF br tr] by (simp add: u_def h_def)
    also have "\<dots> \<le> (\<bar>x\<bar> + (\<bar>x\<bar> * u + h) + \<bar>y\<bar>) * u + h"
      using tb by (simp add: u_def mult_right_mono)
    finally have e2: "\<bar>fl t - t\<bar> \<le> (\<bar>x\<bar> + (\<bar>x\<bar> * u + h) + \<bar>y\<bar>) * u + h" .
    have "fl t - (x + y) = (fl t - t) + (fl x - x)" by (simp add: t_def)
    then have "\<bar>fl t - (x + y)\<bar> \<le> \<bar>fl t - t\<bar> + \<bar>fl x - x\<bar>" by linarith
    with e1 e2 have "\<bar>fl t - (x + y)\<bar>
        \<le> (\<bar>x\<bar> + (\<bar>x\<bar> * u + h) + \<bar>y\<bar>) * u + h + (\<bar>x\<bar> * u + h)" by linarith
    also have "\<dots> \<le> (\<bar>x\<bar> + \<bar>y\<bar>) * (3 * u) + 4 * h"
      by (rule fused_error_sum) (simp_all add: u_def h_def)
    finally show ?thesis
      by (simp add: np_dot_def t_def x_def y_def u_def h_def)
  qed
  from z n g e show ?thesis unfolding dot_accuracy_def by blast
qed

lemma np_dot_rounded_meets:
  assumes br: "binary64_rounding fl"
  shows "dot_accuracy (np_dot_rounded fl)"
proof -
  have z: "np_dot_rounded fl (0, 0) (0, 0) = 0"
    by (simp add: np_dot_rounded_def br_zero [OF br])
  have n: "0 \<le> np_dot_rounded fl v v" for v
  proof -
    have "0 \<le> fl (fst v * fst v)" and "0 \<le> fl (snd v * snd v)"
      by (rule br_nonneg [OF br], simp)+
    then have "0 \<le> fl (fst v * fst v) + fl (snd v * snd v)" by simp
    then show ?thesis unfolding np_dot_rounded_def by (rule br_nonneg [OF br])
  qed
  have g: "\<exists>k::int. np_dot_rounded fl v w = real_of_int k / 2 ^ 1074" for v w
    unfolding np_dot_rounded_def by (rule br_grid [OF br])
  have e: "\<bar>np_dot_rounded fl v w - (fst v * fst w + snd v * snd w)\<bar>
          \<le> (\<bar>fst v * fst w\<bar> + \<bar>snd v * snd w\<bar>) * (3 / 2 ^ 53) + 4 / 2 ^ 1075"
    if h: "\<bar>fst v * fst w\<bar> \<le> 2 ^ 1021 \<and> \<bar>snd v * snd w\<bar> \<le> 2 ^ 1021" for v w
  proof -
    define x where "x = fst v * fst w"
    define y where "y = snd v * snd w"
    define u :: real where "u = 1 / 2 ^ 53"
    define h :: real where "h = 1 / 2 ^ 1075"
    define t where "t = fl x + fl y"
    from h have xb: "\<bar>x\<bar> \<le> 2 ^ 1021" and yb: "\<bar>y\<bar> \<le> 2 ^ 1021" by (simp_all add: x_def y_def)
    have big: "(2 ^ 1021 :: real) \<le> 2 ^ 1023" by simp
    from xb big have xr: "\<bar>x\<bar> \<le> 2 ^ 1023" by (rule order_trans)
    from yb big have yr: "\<bar>y\<bar> \<le> 2 ^ 1023" by (rule order_trans)
    have e1: "\<bar>fl x - x\<bar> \<le> \<bar>x\<bar> * u + h"
      using br_abs [OF br xr] by (simp add: u_def h_def)
    have e1': "\<bar>fl y - y\<bar> \<le> \<bar>y\<bar> * u + h"
      using br_abs [OF br yr] by (simp add: u_def h_def)
    have v1: "\<bar>fl x\<bar> \<le> \<bar>x\<bar> + (\<bar>x\<bar> * u + h)"
      using br_abs_value [OF br xr] by (simp add: u_def h_def)
    have v2: "\<bar>fl y\<bar> \<le> \<bar>y\<bar> + (\<bar>y\<bar> * u + h)"
      using br_abs_value [OF br yr] by (simp add: u_def h_def)
    from v1 v2 have tb: "\<bar>t\<bar> \<le> (\<bar>x\<bar> + (\<bar>x\<bar> * u + h)) + (\<bar>y\<bar> + (\<bar>y\<bar> * u + h))"
      unfolding t_def by linarith
    also have "\<dots> \<le> 2 ^ 1023"
      unfolding u_def h_def using xb yb by (intro product_range) simp_all
    finally have tr: "\<bar>t\<bar> \<le> 2 ^ 1023" .
    have "\<bar>fl t - t\<bar> \<le> \<bar>t\<bar> * u + h"
      using br_abs [OF br tr] by (simp add: u_def h_def)
    also have "\<dots> \<le> ((\<bar>x\<bar> + (\<bar>x\<bar> * u + h)) + (\<bar>y\<bar> + (\<bar>y\<bar> * u + h))) * u + h"
      using tb by (simp add: u_def mult_right_mono)
    finally have e2: "\<bar>fl t - t\<bar> \<le> ((\<bar>x\<bar> + (\<bar>x\<bar> * u + h)) + (\<bar>y\<bar> + (\<bar>y\<bar> * u + h))) * u + h" .
    have "fl t - (x + y) = (fl t - t) + ((fl x - x) + (fl y - y))" by (simp add: t_def)
    then have "\<bar>fl t - (x + y)\<bar> \<le> \<bar>fl t - t\<bar> + (\<bar>fl x - x\<bar> + \<bar>fl y - y\<bar>)" by linarith
    with e1 e1' e2 have "\<bar>fl t - (x + y)\<bar>
        \<le> ((\<bar>x\<bar> + (\<bar>x\<bar> * u + h)) + (\<bar>y\<bar> + (\<bar>y\<bar> * u + h))) * u + h
            + ((\<bar>x\<bar> * u + h) + (\<bar>y\<bar> * u + h))" by linarith
    also have "\<dots> \<le> (\<bar>x\<bar> + \<bar>y\<bar>) * (3 * u) + 4 * h"
      by (rule rounded_error_sum) (simp_all add: u_def h_def)
    finally show ?thesis
      by (simp add: np_dot_rounded_def t_def x_def y_def u_def h_def)
  qed
  from z n g e show ?thesis unfolding dot_accuracy_def by blast
qed

lemma cos_lower: "1 - x\<^sup>2 / 2 \<le> cos (x::real)"
proof -
  have "\<bar>sin (x / 2)\<bar> \<le> \<bar>x / 2\<bar>" by (rule abs_sin_x_le_abs_x)
  then have "(sin (x / 2))\<^sup>2 \<le> (x / 2)\<^sup>2" by (simp only: abs_le_square_iff)
  moreover have "cos x = 1 - 2 * (sin (x / 2))\<^sup>2"
    using cos_double_sin [of "x / 2"] by simp
  ultimately show ?thesis by (simp add: power2_eq_square)
qed

lemma sin_lower: "0 \<le> y \<Longrightarrow> y - y ^ 3 / 6 \<le> sin (y::real)"
proof -
  assume y: "0 \<le> y"
  have c: "(\<Sum>m<3. sin_coeff m * y ^ m) = y"
    by (simp add: sin_coeff_def numeral_3_eq_3)
  have "(fact 3 :: real) = 6" by (simp add: numeral_3_eq_3)
  then have f: "inverse (fact 3) * \<bar>y\<bar> ^ 3 = y ^ 3 / 6"
    using y by simp
  have "\<bar>sin y - (\<Sum>m<3. sin_coeff m * y ^ m)\<bar> \<le> inverse (fact 3) * \<bar>y\<bar> ^ 3"
    by (rule Maclaurin_sin_bound)
  then have "\<bar>sin y - y\<bar> \<le> y ^ 3 / 6" by (simp only: c f)
  then show ?thesis by linarith
qed

lemma cos_small: "cos (1 / 2 ^ 20 :: real) \<le> 1 - 2 * (1 / 2 ^ 21 - (1 / 2 ^ 21) ^ 3 / 6)\<^sup>2"
proof -
  let ?y = "1 / 2 ^ 21 :: real"
  let ?L = "?y - ?y ^ 3 / 6"
  have L: "0 \<le> ?L" by (simp add: power3_eq_cube)
  have "?L \<le> sin ?y" by (rule sin_lower) simp
  with L have "?L\<^sup>2 \<le> (sin ?y)\<^sup>2" by (intro power_mono)
  moreover have "cos (2 * ?y) = 1 - 2 * (sin ?y)\<^sup>2" by (rule cos_double_sin)
  moreover have "2 * ?y = 1 / 2 ^ 20" by simp
  ultimately show ?thesis by (simp only:)
qed


lemma grid_order:
  assumes "P = real_of_int j / 2 ^ 1074" and "s = real_of_int k / 2 ^ 1074"
    and "P - s < 1 / 2 ^ 1074"
  shows "P \<le> s"
proof -
  have "P - s = real_of_int (j - k) / 2 ^ 1074"
    unfolding assms(1) assms(2) by (simp add: diff_divide_distrib)
  with assms(3) have "real_of_int (j - k) / 2 ^ 1074 < 1 / 2 ^ 1074" by simp
  then have "real_of_int (j - k) < 1" by (simp add: divide_less_cancel)
  then have "j - k < 1" by linarith
  then have "j \<le> k" by simp
  then have "real_of_int j / 2 ^ 1074 \<le> real_of_int k / 2 ^ 1074"
    by (intro divide_right_mono) simp_all
  then show ?thesis by (simp only: assms(1) assms(2))
qed

lemma grid_positive:
  assumes "s = real_of_int k / 2 ^ 1074" and "0 < s"
  shows "1 / 2 ^ 1074 \<le> s"
proof -
  from assms have "0 < real_of_int k / 2 ^ 1074" by simp
  then have "0 < real_of_int k" by (simp add: zero_less_divide_iff)
  then have "1 \<le> k" by linarith
  then have "real_of_int 1 / 2 ^ 1074 \<le> real_of_int k / 2 ^ 1074"
    by (intro divide_right_mono) simp_all
  then show ?thesis by (simp add: assms(1))
qed

lemma sqrt_bottom: "sqrt (1 / 2 ^ 1074) = 1 / 2 ^ 537"
proof -
  have a: "sqrt ((1 / 2 ^ 537 :: real)\<^sup>2) = \<bar>1 / 2 ^ 537\<bar>" by (rule real_sqrt_abs)
  have b: "((1 / 2 ^ 537 :: real))\<^sup>2 = 1 / 2 ^ 1074" by (simp add: power2_eq_square)
  have c: "\<bar>1 / 2 ^ 537 :: real\<bar> = 1 / 2 ^ 537" by (rule abs_of_nonneg) simp
  from a show ?thesis unfolding b c .
qed

lemma sqrt_top: "sqrt (2 ^ 1004) = 2 ^ 502"
proof -
  have a: "sqrt ((2 ^ 502 :: real)\<^sup>2) = \<bar>2 ^ 502\<bar>" by (rule real_sqrt_abs)
  have b: "((2 ^ 502 :: real))\<^sup>2 = 2 ^ 1004" by (simp add: power2_eq_square)
  have c: "\<bar>2 ^ 502 :: real\<bar> = 2 ^ 502" by (rule abs_of_nonneg) simp
  from a show ?thesis unfolding b c .
qed

lemma square_bound:
  fixes A :: real
  assumes "\<bar>A\<bar> \<le> 2 ^ 501" and "\<bar>C\<bar> \<le> 2 ^ 501"
  shows "\<bar>A * C\<bar> \<le> 2 ^ 1002" "\<bar>A * C\<bar> \<le> 2 ^ 1021"
proof -
  have "\<bar>A\<bar> * \<bar>C\<bar> \<le> 2 ^ 501 * 2 ^ 501" using assms by (intro mult_mono) simp_all
  then show 1: "\<bar>A * C\<bar> \<le> 2 ^ 1002" by (simp add: abs_mult)
  have "(2 ^ 1002 :: real) \<le> 2 ^ 1021" by simp
  with 1 show "\<bar>A * C\<bar> \<le> 2 ^ 1021" by (rule order_trans)
qed

lemma da_error:
  assumes "dot_accuracy dot" and "\<bar>fst v * fst w\<bar> \<le> 2 ^ 1021" and "\<bar>snd v * snd w\<bar> \<le> 2 ^ 1021"
  shows "\<bar>dot v w - (fst v * fst w + snd v * snd w)\<bar>
          \<le> (\<bar>fst v * fst w\<bar> + \<bar>snd v * snd w\<bar>) * (3 / 2 ^ 53) + 4 / 2 ^ 1075"
  using assms unfolding dot_accuracy_def by blast

lemma da_nonneg: "dot_accuracy dot \<Longrightarrow> 0 \<le> dot v v"
  unfolding dot_accuracy_def by blast

lemma da_grid: "dot_accuracy dot \<Longrightarrow> \<exists>k::int. dot v w = real_of_int k / 2 ^ 1074"
  unfolding dot_accuracy_def by blast

lemma da_zero: "dot_accuracy dot \<Longrightarrow> dot (0, 0) (0, 0) = 0"
  unfolding dot_accuracy_def by blast

lemma still_norm:
  "binary64_rounding fl \<Longrightarrow> dot_accuracy dot \<Longrightarrow> linalg_norm fl dot (heading fl p p) = 0"
  by (simp add: linalg_norm_def heading_def br_zero da_zero)

text \<open>
  Two equal headings: the cosine computed from them is within a few roundings of 1, also
  where the squares underflow, and the angle stays below 0.0001 degrees.
\<close>

lemma ratio_bounds:
  "(1 - 1 / 2 ^ 53) ^ 3 - 1 / 2 \<ge> (1 / 4 :: real)"
  "(0 :: real) < 1 + 2 * ((1 + 1 / 2 ^ 53) ^ 3 - 1)"
  "1 + 2 * ((1 + 1 / 2 ^ 53) ^ 3 - 1) \<le> (2 :: real)"
  by (simp_all add: power3_eq_cube)

lemma straight_cosine:
  assumes br: "binary64_rounding fl" and da: "dot_accuracy dot"
    and n: "0 < linalg_norm fl dot v"
    and b1: "\<bar>fst v\<bar> \<le> 2 ^ 501" and b2: "\<bar>snd v\<bar> \<le> 2 ^ 501"
  shows "(1 - 1 / 2 ^ 53) / (1 + 2 * ((1 + 1 / 2 ^ 53) ^ 3 - 1))
    \<le> fl (dot v v / fl (linalg_norm fl dot v * linalg_norm fl dot v))"
proof -
  define u :: real where "u = 1 / 2 ^ 53"
  define h :: real where "h = 1 / 2 ^ 1075"
  define E where "E = (1 + u) ^ 3 - 1"
  define s where "s = dot v v"
  define r where "r = sqrt s"
  define m where "m = linalg_norm fl dot v * linalg_norm fl dot v"
  define P where "P = fl m"
  have u0: "0 \<le> u" and u1: "0 \<le> 1 - u" and h0: "0 \<le> h" by (simp_all add: u_def h_def)
  have E0: "0 \<le> E" by (simp add: E_def u_def power3_eq_cube)
  have s0: "0 \<le> s" unfolding s_def by (rule da_nonneg [OF da])
  then have r0: "0 \<le> r" by (simp add: r_def)
  have nr: "linalg_norm fl dot v = fl r" by (simp add: linalg_norm_def r_def s_def)
  have "r \<noteq> 0" using n br_zero [OF br] by (auto simp: nr)
  with r0 have rpos: "0 < r" by simp
  then have spos: "0 < s" using s0 by (auto simp: r_def)
  have rs: "r * r = s" using s0 by (simp add: r_def)
  from da_grid [OF da, of v v] obtain k :: int where sk: "s = real_of_int k / 2 ^ 1074"
    unfolding s_def by blast
  from grid_positive [OF sk spos] have sq: "1 / 2 ^ 1074 \<le> s" .
  then have hs: "2 * h \<le> s" by (simp add: h_def)
  have x1: "\<bar>fst v * fst v\<bar> \<le> 2 ^ 1021" and x2: "\<bar>fst v * fst v\<bar> \<le> 2 ^ 1002"
    using square_bound [OF b1 b1] by simp_all
  have y1: "\<bar>snd v * snd v\<bar> \<le> 2 ^ 1021" and y2: "\<bar>snd v * snd v\<bar> \<le> 2 ^ 1002"
    using square_bound [OF b2 b2] by simp_all
  define T where "T = \<bar>fst v * fst v\<bar> + \<bar>snd v * snd v\<bar>"
  have T0: "0 \<le> T" by (simp add: T_def)
  have Tb: "T \<le> 2 ^ 1003" using x2 y2 by (simp add: T_def)
  have "\<bar>s - (fst v * fst v + snd v * snd v)\<bar> \<le> T * (3 / 2 ^ 53) + 4 / 2 ^ 1075"
    unfolding s_def T_def by (rule da_error [OF da x1 y1])
  moreover have "fst v * fst v + snd v * snd v \<le> T" unfolding T_def by linarith
  ultimately have "s \<le> T + (T * (3 / 2 ^ 53) + 4 / 2 ^ 1075)" by linarith
  also have "\<dots> \<le> 2 ^ 1003 + (2 ^ 1003 * (3 / 2 ^ 53) + 4 / 2 ^ 1075)"
    using Tb by (intro add_mono mult_right_mono) simp_all
  also have "\<dots> \<le> (2 ^ 1004 :: real)" by simp
  finally have sb: "s \<le> 2 ^ 1004" .
  have "sqrt (1 / 2 ^ 1074) \<le> r" unfolding r_def using sq by (rule real_sqrt_le_mono)
  then have rl: "1 / 2 ^ 537 \<le> r" by (simp only: sqrt_bottom)
  have "r \<le> sqrt (2 ^ 1004)" unfolding r_def using sb by (rule real_sqrt_le_mono)
  then have ru: "r \<le> 2 ^ 502" by (simp only: sqrt_top)
  have "(1 / 2 ^ 1022 :: real) \<le> 1 / 2 ^ 537" by simp
  then have rl': "1 / 2 ^ 1022 \<le> r" using rl by (rule order_trans)
  have "(2 ^ 502 :: real) \<le> 2 ^ 1023" by simp
  with ru have ru': "r \<le> 2 ^ 1023" by (rule order_trans)
  have nu: "fl r \<le> r * (1 + u)" unfolding u_def by (rule br_upper [OF br rl' ru'])
  have nl: "r * (1 - u) \<le> fl r" unfolding u_def by (rule br_lower [OF br rl' ru'])
  have n0: "0 \<le> fl r" using n by (simp add: nr)
  have mm: "m = fl r * fl r" by (simp add: m_def nr)
  have "fl r * fl r \<le> (r * (1 + u)) * (r * (1 + u))"
    using nu n0 by (intro mult_mono) simp_all
  also have "\<dots> = (r * r) * ((1 + u) * (1 + u))" by (simp add: algebra_simps)
  also have "\<dots> = s * ((1 + u) * (1 + u))" by (simp only: rs)
  finally have mu: "m \<le> s * ((1 + u) * (1 + u))" by (simp only: mm)
  have "(r * (1 - u)) * (r * (1 - u)) \<le> fl r * fl r"
    using nl n0 rpos u1 by (intro mult_mono) simp_all
  moreover have "(r * (1 - u)) * (r * (1 - u)) = (r * r) * ((1 - u) * (1 - u))"
    by (simp add: algebra_simps)
  ultimately have ml: "s * ((1 - u) * (1 - u)) \<le> m" by (simp only: mm rs)
  have mpos: "0 < m" unfolding m_def using n by simp
  then have m0: "0 \<le> m" by simp
  have "s * ((1 + u) * (1 + u)) \<le> 2 ^ 1004 * ((1 + u) * (1 + u))"
    using sb by (intro mult_right_mono) (simp_all add: u_def)
  also have "\<dots> \<le> 2 ^ 1023" by (simp add: u_def)
  finally have "s * ((1 + u) * (1 + u)) \<le> 2 ^ 1023" .
  with mu have mr: "m \<le> 2 ^ 1023" by (rule order_trans)
  from m0 mr have "\<bar>m\<bar> \<le> 2 ^ 1023" by simp
  from br_abs [OF br this] m0 have Pe: "\<bar>P - m\<bar> \<le> m * u + h"
    by (simp add: P_def u_def h_def)
  have "m * u \<le> (s * ((1 + u) * (1 + u))) * u" using mu u0 by (rule mult_right_mono)
  with Pe mu have "P - s \<le> s * ((1 + u) * (1 + u)) + (s * ((1 + u) * (1 + u))) * u - s + h"
    by linarith
  also have "s * ((1 + u) * (1 + u)) + (s * ((1 + u) * (1 + u))) * u - s + h = s * E + h"
    by (simp add: E_def power3_eq_cube algebra_simps)
  finally have d: "P - s \<le> s * E + h" .
  from br_grid [OF br, of m] obtain j :: int where Pj: "P = real_of_int j / 2 ^ 1074"
    unfolding P_def by blast
  have Pu: "P \<le> s * (1 + 2 * E)"
  proof (cases "P \<le> s")
    case True
    have "s * 1 \<le> s * (1 + 2 * E)" using s0 E0 by (intro mult_left_mono) simp_all
    with True show ?thesis by simp
  next
    case False
    have "\<not> P - s < 1 / 2 ^ 1074" using grid_order [OF Pj sk] False by blast
    then have "2 * h \<le> P - s" by (simp add: h_def)
    with d have "h \<le> s * E" by linarith
    with d have "P - s \<le> 2 * (s * E)" by linarith
    then show ?thesis by (simp add: algebra_simps)
  qed
  have "(s * ((1 - u) * (1 - u))) * (1 - u) \<le> m * (1 - u)" using ml u1 by (rule mult_right_mono)
  moreover have "m * (1 - u) - h \<le> P"
  proof -
    from Pe have "m - P \<le> m * u + h" by linarith
    then show ?thesis by (simp add: algebra_simps)
  qed
  ultimately have "s * (1 - u) ^ 3 - h \<le> P" by (simp add: power3_eq_cube algebra_simps)
  with hs have "s * (1 - u) ^ 3 - s / 2 \<le> P" by linarith
  then have "s * ((1 - u) ^ 3 - 1 / 2) \<le> P" by (simp add: algebra_simps)
  moreover have "s * (1 / 4) \<le> s * ((1 - u) ^ 3 - 1 / 2)"
    using s0 ratio_bounds(1) unfolding u_def by (intro mult_left_mono) simp_all
  ultimately have Pl: "s / 4 \<le> P" by simp
  with spos have Ppos: "0 < P" by linarith
  have den: "0 < 1 + 2 * E" using ratio_bounds(2) by (simp add: E_def u_def)
  have "s / (s * (1 + 2 * E)) \<le> s / P"
    using Pu Ppos spos by (intro divide_left_mono) simp_all
  moreover have "s / (s * (1 + 2 * E)) = 1 / (1 + 2 * E)" using spos by simp
  ultimately have q: "1 / (1 + 2 * E) \<le> s / P" by simp
  have "1 / 2 \<le> 1 / (1 + 2 * E)"
    using ratio_bounds(3) den unfolding E_def u_def by (intro divide_left_mono) simp_all
  then have qh: "1 / 2 \<le> s / P" using q by (rule order_trans)
  have "(1 / 2 ^ 1022 :: real) \<le> 1 / 2" by simp
  then have ql: "1 / 2 ^ 1022 \<le> s / P" using qh by (rule order_trans)
  have "s / P \<le> s / (s / 4)" using Pl spos by (intro divide_left_mono) simp_all
  also have "\<dots> = 4" using spos by simp
  also have "\<dots> \<le> (2 ^ 1023 :: real)" by simp
  finally have qu: "s / P \<le> 2 ^ 1023" .
  have "(1 / (1 + 2 * E)) * (1 - u) \<le> (s / P) * (1 - u)"
    using q u1 by (rule mult_right_mono)
  also have "\<dots> \<le> fl (s / P)" unfolding u_def by (rule br_lower [OF br ql qu])
  finally show ?thesis by (simp add: s_def P_def m_def E_def u_def)
qed

lemma arccos_small:
  assumes "(1 - 1 / 2 ^ 53) / (1 + 2 * ((1 + 1 / 2 ^ 53) ^ 3 - 1)) \<le> c" and "c \<le> 1"
  shows "arccos c \<le> 1 / 2 ^ 20"
proof -
  have "1 - 2 * (1 / 2 ^ 21 - (1 / 2 ^ 21) ^ 3 / 6)\<^sup>2
      \<le> ((1 - 1 / 2 ^ 53) / (1 + 2 * ((1 + 1 / 2 ^ 53) ^ 3 - 1)) :: real)"
    by (simp add: power2_eq_square power3_eq_cube)
  with cos_small have "cos (1 / 2 ^ 20 :: real)
      \<le> (1 - 1 / 2 ^ 53) / (1 + 2 * ((1 + 1 / 2 ^ 53) ^ 3 - 1))"
    by (rule order_trans)
  then have "cos (1 / 2 ^ 20) \<le> c" using assms(1) by (rule order_trans)
  moreover have "- 1 \<le> cos (1 / 2 ^ 20 :: real)" by (rule cos_ge_minus_one)
  ultimately have "arccos c \<le> arccos (cos (1 / 2 ^ 20))"
    using assms(2) by (intro arccos_le_arccos)
  moreover have "arccos (cos (1 / 2 ^ 20)) = 1 / 2 ^ 20"
    using pi_ge_two by (intro arccos_cos) simp_all
  ultimately show ?thesis by (simp only:)
qed

lemma degrees_range: "45 \<le> 180 / pi" "180 / pi \<le> 90"
proof -
  have "45 * pi \<le> 180" using pi_less_4 by simp
  then show "45 \<le> 180 / pi" by (simp add: pos_le_divide_eq)
  have "180 \<le> 90 * pi" using pi_ge_two by simp
  then show "180 / pi \<le> 90" by (simp add: pos_divide_le_eq)
qed

lemma degrees_factor:
  assumes br: "binary64_rounding fl"
  shows "45 * (1 - 1 / 2 ^ 53) \<le> fl (180 / pi)" "fl (180 / pi) \<le> 90 * (1 + 1 / 2 ^ 53)"
proof -
  have "(1 / 2 ^ 1022 :: real) \<le> 45" by simp
  then have lo: "1 / 2 ^ 1022 \<le> 180 / pi" using degrees_range(1) by (rule order_trans)
  have "(90 :: real) \<le> 2 ^ 1023" by simp
  with degrees_range(2) have hi: "180 / pi \<le> 2 ^ 1023" by (rule order_trans)
  have "45 * (1 - 1 / 2 ^ 53) \<le> (180 / pi) * (1 - 1 / 2 ^ 53)"
    using degrees_range(1) by (intro mult_right_mono) simp_all
  also have "\<dots> \<le> fl (180 / pi)" by (rule br_lower [OF br lo hi])
  finally show "45 * (1 - 1 / 2 ^ 53) \<le> fl (180 / pi)" .
  have "fl (180 / pi) \<le> (180 / pi) * (1 + 1 / 2 ^ 53)" by (rule br_upper [OF br lo hi])
  also have "\<dots> \<le> 90 * (1 + 1 / 2 ^ 53)"
    using degrees_range(2) by (intro mult_right_mono) simp_all
  finally show "fl (180 / pi) \<le> 90 * (1 + 1 / 2 ^ 53)" .
qed

lemma straight_angle:
  assumes br: "binary64_rounding fl" and da: "dot_accuracy dot"
    and n: "0 < linalg_norm fl dot v"
    and b1: "\<bar>fst v\<bar> \<le> 2 ^ 501" and b2: "\<bar>snd v\<bar> \<le> 2 ^ 501"
  shows "turn_angle fl dot v v < 1 / 10 ^ 4"
proof -
  define l where "l = ((1 - 1 / 2 ^ 53) / (1 + 2 * ((1 + 1 / 2 ^ 53) ^ 3 - 1)) :: real)"
  define c0 where "c0 = fl (dot v v / fl (linalg_norm fl dot v * linalg_norm fl dot v))"
  define c where "c = np_clip c0 (- 1) 1"
  define a where "a = fl (arccos c)"
  define K where "K = fl (180 / pi)"
  define al :: real where "al = (1 / 2 ^ 20) * (1 + 1 / 2 ^ 53) + 1 / 2 ^ 1075"
  define ka :: real where "ka = 90 * (1 + 1 / 2 ^ 53)"
  have l0: "0 \<le> l" and l1: "l \<le> 1" by (simp_all add: l_def power3_eq_cube)
  have t: "turn_angle fl dot v v = fl (a * K)"
    by (simp add: turn_angle_def Let_def np_degrees_def a_def c_def c0_def K_def)
  have "l \<le> c0"
    unfolding c0_def l_def by (rule straight_cosine [OF br da n b1 b2])
  with l1 have cl: "l \<le> c" and cu: "c \<le> 1"
    by (simp_all add: c_def np_clip_def)
  from cl l0 have "- 1 \<le> c" by linarith
  then have ac0: "0 \<le> arccos c" using cu by (intro arccos_lbound)
  have acu: "arccos c \<le> 1 / 2 ^ 20" using cl cu unfolding l_def by (rule arccos_small)
  have "(1 / 2 ^ 20 :: real) \<le> 2 ^ 1023" by simp
  with acu have acr: "arccos c \<le> 2 ^ 1023" by (rule order_trans)
  have a0: "0 \<le> a" unfolding a_def by (rule br_nonneg [OF br ac0])
  have "a \<le> arccos c * (1 + 1 / 2 ^ 53) + 1 / 2 ^ 1075"
    unfolding a_def by (rule br_upper_abs [OF br ac0 acr])
  moreover have "arccos c * (1 + 1 / 2 ^ 53) \<le> (1 / 2 ^ 20) * (1 + 1 / 2 ^ 53)"
    using acu by (intro mult_right_mono) simp_all
  ultimately have au: "a \<le> al" unfolding al_def by linarith
  have K0: "0 \<le> K" unfolding K_def by (rule br_nonneg [OF br]) simp
  have Ku: "K \<le> ka" unfolding K_def ka_def by (rule degrees_factor(2) [OF br])
  have ka0: "0 \<le> ka" by (simp add: ka_def)
  have aK0: "0 \<le> a * K" using a0 K0 by simp
  have aKu: "a * K \<le> al * ka" using au Ku a0 K0 ka0 by (intro mult_mono) simp_all
  have "al * ka \<le> 2 ^ 1023" by (simp add: al_def ka_def)
  with aKu have aKr: "a * K \<le> 2 ^ 1023" by (rule order_trans)
  have "fl (a * K) \<le> (a * K) * (1 + 1 / 2 ^ 53) + 1 / 2 ^ 1075"
    by (rule br_upper_abs [OF br aK0 aKr])
  moreover have "(a * K) * (1 + 1 / 2 ^ 53) \<le> (al * ka) * (1 + 1 / 2 ^ 53)"
    using aKu by (intro mult_right_mono) simp_all
  ultimately have "fl (a * K) \<le> (al * ka) * (1 + 1 / 2 ^ 53) + 1 / 2 ^ 1075" by linarith
  moreover have "(al * ka) * (1 + 1 / 2 ^ 53) + 1 / 2 ^ 1075 < (1 :: real) / 10 ^ 4"
    by (simp add: al_def ka_def)
  ultimately show ?thesis unfolding t by (rule le_less_trans)
qed

text \<open>
  Two perpendicular segments of moderate size: both norms are positive, the cosine
  computed from the headings is at most 1/2 in magnitude, and the angle is at least 45
  degrees.
\<close>

lemma component_le_norm: "\<bar>A\<bar> \<le> sqrt (A * A + B * B)" "\<bar>B\<bar> \<le> sqrt (A * A + B * B)"
proof -
  have "\<bar>A\<bar>\<^sup>2 \<le> A * A + B * B" by (simp add: power2_eq_square)
  then show "\<bar>A\<bar> \<le> sqrt (A * A + B * B)" by (rule real_le_rsqrt)
  have "\<bar>B\<bar>\<^sup>2 \<le> A * A + B * B" by (simp add: power2_eq_square)
  then show "\<bar>B\<bar> \<le> sqrt (A * A + B * B)" by (rule real_le_rsqrt)
qed

lemma norm_bounds:
  assumes br: "binary64_rounding fl" and da: "dot_accuracy dot"
    and b1: "\<bar>fst v\<bar> \<le> 2 ^ 501" and b2: "\<bar>snd v\<bar> \<le> 2 ^ 501"
    and lo: "1 / 2 ^ 501 \<le> sqrt (fst v * fst v + snd v * snd v)"
  shows "sqrt (fst v * fst v + snd v * snd v) * ((1 - 4 / 2 ^ 53) * (1 - 1 / 2 ^ 53))
      \<le> linalg_norm fl dot v"
    "linalg_norm fl dot v
      \<le> sqrt (fst v * fst v + snd v * snd v) * ((1 + 4 / 2 ^ 53) * (1 + 1 / 2 ^ 53))"
proof -
  define u :: real where "u = 1 / 2 ^ 53"
  define N where "N = sqrt (fst v * fst v + snd v * snd v)"
  define Q where "Q = fst v * fst v + snd v * snd v"
  define s where "s = dot v v"
  define r where "r = sqrt s"
  have Q0: "0 \<le> Q" by (simp add: Q_def)
  have NQ: "N * N = Q" using Q0 by (simp add: N_def Q_def)
  have N0: "0 \<le> N" by (simp add: N_def)
  have Nl: "1 / 2 ^ 501 \<le> N" using lo by (simp add: N_def)
  have "(1 / 2 ^ 501) * (1 / 2 ^ 501) \<le> N * N" using Nl by (intro mult_mono) simp_all
  then have Ql: "1 / 2 ^ 1002 \<le> Q" by (simp add: NQ)
  have x1: "\<bar>fst v * fst v\<bar> \<le> 2 ^ 1021" and x2: "\<bar>fst v * fst v\<bar> \<le> 2 ^ 1002"
    using square_bound [OF b1 b1] by simp_all
  have y1: "\<bar>snd v * snd v\<bar> \<le> 2 ^ 1021" and y2: "\<bar>snd v * snd v\<bar> \<le> 2 ^ 1002"
    using square_bound [OF b2 b2] by simp_all
  have QT: "\<bar>fst v * fst v\<bar> + \<bar>snd v * snd v\<bar> = Q" by (simp add: Q_def)
  from x2 y2 QT have Qu: "Q \<le> 2 ^ 1003" by simp
  have "\<bar>s - Q\<bar> \<le> Q * (3 / 2 ^ 53) + 4 / 2 ^ 1075"
    using da_error [OF da x1 y1] by (simp only: s_def Q_def QT [unfolded Q_def])
  moreover have "(4 / 2 ^ 1075 :: real) \<le> (1 / 2 ^ 1002) * (1 / 2 ^ 53)" by simp
  moreover have "(1 / 2 ^ 1002) * (1 / 2 ^ 53) \<le> Q * (1 / 2 ^ 53)"
    using Ql by (intro mult_right_mono) simp_all
  ultimately have "\<bar>s - Q\<bar> \<le> Q * (3 / 2 ^ 53) + Q * (1 / 2 ^ 53)" by linarith
  then have se: "\<bar>s - Q\<bar> \<le> Q * (4 * u)" by (simp add: u_def algebra_simps)
  have sl: "Q * (1 - 4 * u) \<le> s"
  proof -
    from se have "Q - s \<le> Q * (4 * u)" by linarith
    then show ?thesis by (simp add: algebra_simps)
  qed
  have su: "s \<le> Q * (1 + 4 * u)"
  proof -
    from se have "s - Q \<le> Q * (4 * u)" by linarith
    then show ?thesis by (simp add: algebra_simps)
  qed
  have w0: "0 \<le> 1 - 4 * u" and w1: "1 - 4 * u \<le> 1" and W1: "1 \<le> 1 + 4 * u"
    by (simp_all add: u_def)
  have "(N * (1 - 4 * u))\<^sup>2 = Q * ((1 - 4 * u) * (1 - 4 * u))"
    by (simp add: power2_eq_square NQ [symmetric] algebra_simps)
  also have "\<dots> \<le> Q * ((1 - 4 * u) * 1)"
    using Q0 w0 w1 by (intro mult_left_mono) simp_all
  also have "\<dots> \<le> s" using sl by simp
  finally have "N * (1 - 4 * u) \<le> sqrt s" by (rule real_le_rsqrt)
  then have rl: "N * (1 - 4 * u) \<le> r" by (simp add: r_def)
  have "s \<le> Q * ((1 + 4 * u) * 1)" using su by simp
  also have "\<dots> \<le> Q * ((1 + 4 * u) * (1 + 4 * u))"
    using Q0 W1 by (intro mult_left_mono) simp_all
  also have "\<dots> = (N * (1 + 4 * u))\<^sup>2"
    by (simp add: power2_eq_square NQ [symmetric] algebra_simps)
  finally have "sqrt s \<le> N * (1 + 4 * u)"
    using N0 W1 by (intro real_le_lsqrt) simp_all
  then have ru: "r \<le> N * (1 + 4 * u)" by (simp add: r_def)
  have "N\<^sup>2 \<le> (2 ^ 502)\<^sup>2"
  proof -
    have "N\<^sup>2 = Q" by (simp add: power2_eq_square NQ)
    also have "\<dots> \<le> 2 ^ 1003" by (rule Qu)
    also have "\<dots> \<le> ((2 :: real) ^ 502)\<^sup>2" by (simp add: power2_eq_square)
    finally show ?thesis .
  qed
  then have Nu: "N \<le> 2 ^ 502" by (rule power2_le_imp_le) simp
  have "(1 / 2 ^ 501) * (1 - 4 * u) \<le> N * (1 - 4 * u)" using Nl w0 by (rule mult_right_mono)
  moreover have "(1 / 2 ^ 1022 :: real) \<le> (1 / 2 ^ 501) * (1 - 4 * u)" by (simp add: u_def)
  ultimately have "1 / 2 ^ 1022 \<le> N * (1 - 4 * u)" by linarith
  with rl have r1: "1 / 2 ^ 1022 \<le> r" by linarith
  have "N * (1 + 4 * u) \<le> 2 ^ 502 * (1 + 4 * u)" using Nu by (intro mult_right_mono) (simp_all add: u_def)
  moreover have "2 ^ 502 * (1 + 4 * u) \<le> 2 ^ 1023" by (simp add: u_def)
  ultimately have "N * (1 + 4 * u) \<le> 2 ^ 1023" by linarith
  with ru have r2: "r \<le> 2 ^ 1023" by linarith
  have nr: "linalg_norm fl dot v = fl r" by (simp add: linalg_norm_def r_def s_def)
  have "(N * (1 - 4 * u)) * (1 - u) \<le> r * (1 - u)"
    using rl by (intro mult_right_mono) (simp_all add: u_def)
  also have "\<dots> \<le> fl r" unfolding u_def by (rule br_lower [OF br r1 r2])
  finally show "sqrt (fst v * fst v + snd v * snd v) * ((1 - 4 / 2 ^ 53) * (1 - 1 / 2 ^ 53))
      \<le> linalg_norm fl dot v"
    by (simp add: nr N_def u_def mult.assoc)
  have "fl r \<le> r * (1 + u)" unfolding u_def by (rule br_upper [OF br r1 r2])
  also have "\<dots> \<le> (N * (1 + 4 * u)) * (1 + u)"
    using ru by (intro mult_right_mono) (simp_all add: u_def)
  finally show "linalg_norm fl dot v
      \<le> sqrt (fst v * fst v + snd v * snd v) * ((1 + 4 / 2 ^ 53) * (1 + 1 / 2 ^ 53))"
    by (simp add: nr N_def u_def mult.assoc)
qed

lemma moderate_value:
  assumes br: "binary64_rounding fl" and m: "moderate a"
  shows "\<bar>fl a\<bar> \<le> 2 ^ 501" "a \<noteq> 0 \<longrightarrow> 1 / 2 ^ 501 \<le> \<bar>fl a\<bar>"
    "\<bar>fl a - a\<bar> \<le> \<bar>fl a\<bar> * (2 / 2 ^ 53)"
proof -
  define u :: real where "u = 1 / 2 ^ 53"
  from moderate_rel [OF br m] have e: "\<bar>fl a - a\<bar> \<le> \<bar>a\<bar> * u" by (simp add: u_def)
  from m have hi: "\<bar>a\<bar> \<le> 2 ^ 500" by (auto simp: moderate_def)
  have "\<bar>a\<bar> * u \<le> 2 ^ 500 * u" using hi by (intro mult_right_mono) (simp_all add: u_def)
  with e hi have "\<bar>fl a\<bar> \<le> 2 ^ 500 + 2 ^ 500 * u" by linarith
  moreover have "2 ^ 500 + 2 ^ 500 * u \<le> 2 ^ 501" by (simp add: u_def)
  ultimately show "\<bar>fl a\<bar> \<le> 2 ^ 501" by (rule order_trans)
  have "\<bar>a\<bar> * u \<le> \<bar>a\<bar> * (1 / 2)" by (intro mult_left_mono) (simp_all add: u_def)
  with e have half: "\<bar>a\<bar> \<le> 2 * \<bar>fl a\<bar>" by linarith
  show "a \<noteq> 0 \<longrightarrow> 1 / 2 ^ 501 \<le> \<bar>fl a\<bar>"
  proof
    assume "a \<noteq> 0"
    with m have "1 / 2 ^ 500 \<le> \<bar>a\<bar>" by (simp add: moderate_def)
    with half have "1 / 2 ^ 500 \<le> 2 * \<bar>fl a\<bar>" by linarith
    then show "1 / 2 ^ 501 \<le> \<bar>fl a\<bar>" by simp
  qed
  have "\<bar>a\<bar> * u \<le> (2 * \<bar>fl a\<bar>) * u" using half by (intro mult_right_mono) (simp_all add: u_def)
  with e have "\<bar>fl a - a\<bar> \<le> (2 * \<bar>fl a\<bar>) * u" by linarith
  then show "\<bar>fl a - a\<bar> \<le> \<bar>fl a\<bar> * (2 / 2 ^ 53)" by (simp add: u_def)
qed

lemma product_error:
  fixes A C a c :: real
  assumes "\<bar>A - a\<bar> \<le> \<bar>A\<bar> * e" and "\<bar>C - c\<bar> \<le> \<bar>C\<bar> * e"
    and "\<bar>A\<bar> \<le> N1" and "\<bar>C\<bar> \<le> N2" and "0 \<le> e"
  shows "\<bar>A * C - a * c\<bar> \<le> (N1 * N2) * (2 * e + e * e)"
proof -
  define al where "al = A - a"
  define ga where "ga = C - c"
  have N1: "0 \<le> N1" and N2: "0 \<le> N2" using assms(3) assms(4) by linarith+
  have al: "\<bar>al\<bar> \<le> N1 * e"
  proof -
    have "\<bar>A\<bar> * e \<le> N1 * e" using assms(3) assms(5) by (rule mult_right_mono)
    with assms(1) show ?thesis unfolding al_def by linarith
  qed
  have ga: "\<bar>ga\<bar> \<le> N2 * e"
  proof -
    have "\<bar>C\<bar> * e \<le> N2 * e" using assms(4) assms(5) by (rule mult_right_mono)
    with assms(2) show ?thesis unfolding ga_def by linarith
  qed
  have d: "A * C - a * c = A * ga + al * C - al * ga"
    by (simp add: al_def ga_def algebra_simps)
  have "\<bar>A\<bar> * \<bar>ga\<bar> \<le> N1 * (N2 * e)" using assms(3) ga N1 by (intro mult_mono) simp_all
  then have 1: "\<bar>A * ga\<bar> \<le> (N1 * N2) * e" by (simp add: abs_mult mult.assoc)
  have "\<bar>al\<bar> * \<bar>C\<bar> \<le> (N1 * e) * N2" using assms(4) al N2 assms(5) N1 by (intro mult_mono) simp_all
  then have 2: "\<bar>al * C\<bar> \<le> (N1 * N2) * e" by (simp add: abs_mult mult.commute mult.left_commute)
  have "\<bar>al\<bar> * \<bar>ga\<bar> \<le> (N1 * e) * (N2 * e)" using al ga N1 N2 assms(5) by (intro mult_mono) simp_all
  then have 3: "\<bar>al * ga\<bar> \<le> (N1 * N2) * (e * e)"
    by (simp add: abs_mult mult.commute mult.left_commute)
  have "\<bar>A * C - a * c\<bar> \<le> \<bar>A * ga\<bar> + \<bar>al * C\<bar> + \<bar>al * ga\<bar>" unfolding d by linarith
  with 1 2 3 have "\<bar>A * C - a * c\<bar> \<le> (N1 * N2) * e + (N1 * N2) * e + (N1 * N2) * (e * e)"
    by linarith
  then show ?thesis by (simp add: algebra_simps)
qed

lemma norm_range:
  fixes A B :: real
  assumes "\<bar>A\<bar> \<le> 2 ^ 501" and "\<bar>B\<bar> \<le> 2 ^ 501"
  shows "sqrt (A * A + B * B) \<le> 2 ^ 502"
proof -
  have "\<bar>A * A\<bar> \<le> 2 ^ 1002" and "\<bar>B * B\<bar> \<le> 2 ^ 1002"
    using square_bound(1) [OF assms(1) assms(1)] square_bound(1) [OF assms(2) assms(2)]
    by simp_all
  then have "A * A + B * B \<le> 2 ^ 1002 + 2 ^ 1002" by linarith
  also have "\<dots> \<le> ((2 :: real) ^ 502)\<^sup>2" by (simp add: power2_eq_square)
  finally show ?thesis by (intro real_le_lsqrt) simp_all
qed

lemma wide_angle:
  assumes br: "binary64_rounding fl" and c: "\<bar>c\<bar> \<le> 1 / 2"
  shows "45 \<le> np_degrees fl (fl (arccos (np_clip c (- 1) 1)))"
proof -
  define w :: real where "w = 1 - 1 / 2 ^ 53"
  define W :: real where "W = 1 + 1 / 2 ^ 53"
  define a where "a = fl (arccos c)"
  define K where "K = fl (180 / pi)"
  have w0: "0 \<le> w" and W0: "0 \<le> W" by (simp_all add: w_def W_def)
  from c have cl: "np_clip c (- 1) 1 = c" by (simp add: np_clip_def)
  have t: "np_degrees fl (fl (arccos (np_clip c (- 1) 1))) = fl (a * K)"
    by (simp add: cl np_degrees_def a_def K_def)
  have "arccos (1 / 2) \<le> arccos c" using c by (intro arccos_le_arccos) simp_all
  then have third: "pi / 3 \<le> arccos c" by simp
  have "2 / 3 \<le> pi / 3" using pi_ge_two by simp
  with third have lo3: "2 / 3 \<le> arccos c" by linarith
  have "(1 / 2 ^ 1022 :: real) \<le> 2 / 3" by simp
  then have lo: "1 / 2 ^ 1022 \<le> arccos c" using lo3 by (rule order_trans)
  have "arccos c \<le> pi" using c by (intro arccos_ubound) simp_all
  with pi_less_4 have up4: "arccos c \<le> 4" by linarith
  have "(4 :: real) \<le> 2 ^ 1023" by simp
  with up4 have hi: "arccos c \<le> 2 ^ 1023" by (rule order_trans)
  have "(pi / 3) * w \<le> arccos c * w" using third w0 by (rule mult_right_mono)
  also have "\<dots> \<le> a" unfolding a_def w_def by (rule br_lower [OF br lo hi])
  finally have al: "(pi / 3) * w \<le> a" .
  have "a \<le> arccos c * W" unfolding a_def W_def by (rule br_upper [OF br lo hi])
  also have "\<dots> \<le> 4 * W" using up4 W0 by (rule mult_right_mono)
  finally have au: "a \<le> 4 * W" .
  have "45 * w \<le> K" unfolding K_def w_def by (rule degrees_factor(1) [OF br])
  have Ku: "K \<le> 90 * W" unfolding K_def W_def by (rule degrees_factor(2) [OF br])
  have "(1 / 2 ^ 1022 :: real) \<le> 45" by simp
  then have dlo: "1 / 2 ^ 1022 \<le> 180 / pi" using degrees_range(1) by (rule order_trans)
  have "(90 :: real) \<le> 2 ^ 1023" by simp
  with degrees_range(2) have dhi: "180 / pi \<le> 2 ^ 1023" by (rule order_trans)
  have Kl: "(180 / pi) * w \<le> K" unfolding K_def w_def by (rule br_lower [OF br dlo dhi])
  have "0 \<le> (pi / 3) * w" using w0 by simp
  with al have a0: "0 \<le> a" by linarith
  have "0 \<le> (180 / pi) * w" using w0 by simp
  with Kl have K0: "0 \<le> K" by linarith
  have "((pi / 3) * w) * ((180 / pi) * w) \<le> a * K"
    using al Kl a0 by (intro mult_mono) (simp_all add: w0)
  moreover have "((pi / 3) * w) * ((180 / pi) * w) = 60 * (w * w)" by simp
  ultimately have l: "60 * (w * w) \<le> a * K" by (simp only:)
  have "(1 / 2 ^ 1022 :: real) \<le> 60 * (w * w)" by (simp add: w_def)
  then have plo: "1 / 2 ^ 1022 \<le> a * K" using l by (rule order_trans)
  have "a * K \<le> (4 * W) * (90 * W)" using au Ku a0 K0 W0 by (intro mult_mono) simp_all
  moreover have "(4 * W) * (90 * W) \<le> 2 ^ 1023" by (simp add: W_def)
  ultimately have phi: "a * K \<le> 2 ^ 1023" by (rule order_trans)
  from l have "(60 * (w * w)) * w \<le> (a * K) * w" using w0 by (rule mult_right_mono)
  moreover have "(a * K) * w \<le> fl (a * K)" unfolding w_def by (rule br_lower [OF br plo phi])
  ultimately have "(60 * (w * w)) * w \<le> fl (a * K)" by (rule order_trans)
  moreover have "45 \<le> (60 * (w * w)) * w" by (simp add: w_def)
  ultimately show ?thesis unfolding t by (rule order_trans [rotated])
qed

lemma perpendicular_cosine:
  assumes br: "binary64_rounding fl" and da: "dot_accuracy dot"
    and ma: "moderate a" and mb: "moderate b" and mc: "moderate c" and md: "moderate d"
    and nz1: "a \<noteq> 0 \<or> b \<noteq> 0" and nz2: "c \<noteq> 0 \<or> d \<noteq> 0"
    and perp: "a * c + b * d = 0"
  shows "0 < linalg_norm fl dot (fl a, fl b)" "0 < linalg_norm fl dot (fl c, fl d)"
    "\<bar>fl (dot (fl a, fl b) (fl c, fl d)
          / fl (linalg_norm fl dot (fl a, fl b) * linalg_norm fl dot (fl c, fl d)))\<bar> \<le> 1 / 2"
proof -
  define u :: real where "u = 1 / 2 ^ 53"
  define h :: real where "h = 1 / 2 ^ 1075"
  define w :: real where "w = (1 - 4 / 2 ^ 53) * (1 - 1 / 2 ^ 53)"
  define W :: real where "W = (1 + 4 / 2 ^ 53) * (1 + 1 / 2 ^ 53)"
  define A where "A = fl a"
  define B where "B = fl b"
  define C where "C = fl c"
  define D where "D = fl d"
  define N1 where "N1 = sqrt (A * A + B * B)"
  define N2 where "N2 = sqrt (C * C + D * D)"
  define G where "G = N1 * N2"
  define n1 where "n1 = linalg_norm fl dot (A, B)"
  define n2 where "n2 = linalg_norm fl dot (C, D)"
  define m where "m = n1 * n2"
  define P where "P = fl m"
  define Z where "Z = dot (A, B) (C, D)"
  have w0: "0 < w" and W0: "0 \<le> W" by (simp_all add: w_def W_def)
  note va = moderate_value [OF br ma, folded A_def]
  note vb = moderate_value [OF br mb, folded B_def]
  note vc = moderate_value [OF br mc, folded C_def]
  note vd = moderate_value [OF br md, folded D_def]
  have AN: "\<bar>A\<bar> \<le> N1" and BN: "\<bar>B\<bar> \<le> N1"
    unfolding N1_def by (rule component_le_norm)+
  have CN: "\<bar>C\<bar> \<le> N2" and DN: "\<bar>D\<bar> \<le> N2"
    unfolding N2_def by (rule component_le_norm)+
  have N1l: "1 / 2 ^ 501 \<le> N1"
  proof (cases "a = 0")
    case False
    with va(2) have "1 / 2 ^ 501 \<le> \<bar>A\<bar>" by simp
    then show ?thesis using AN by (rule order_trans)
  next
    case True
    with nz1 vb(2) have "1 / 2 ^ 501 \<le> \<bar>B\<bar>" by simp
    then show ?thesis using BN by (rule order_trans)
  qed
  have N2l: "1 / 2 ^ 501 \<le> N2"
  proof (cases "c = 0")
    case False
    with vc(2) have "1 / 2 ^ 501 \<le> \<bar>C\<bar>" by simp
    then show ?thesis using CN by (rule order_trans)
  next
    case True
    with nz2 vd(2) have "1 / 2 ^ 501 \<le> \<bar>D\<bar>" by simp
    then show ?thesis using DN by (rule order_trans)
  qed
  have N1u: "N1 \<le> 2 ^ 502" unfolding N1_def by (rule norm_range [OF va(1) vb(1)])
  have N2u: "N2 \<le> 2 ^ 502" unfolding N2_def by (rule norm_range [OF vc(1) vd(1)])
  have N10: "0 < N1" by (rule less_le_trans [OF _ N1l]) simp
  have N20: "0 < N2" by (rule less_le_trans [OF _ N2l]) simp
  have b1: "N1 * w \<le> n1" and b1u: "n1 \<le> N1 * W"
    using norm_bounds [OF br da, of "(A, B)"] va(1) vb(1) N1l
    by (simp_all add: N1_def n1_def w_def W_def)
  have b2: "N2 * w \<le> n2" and b2u: "n2 \<le> N2 * W"
    using norm_bounds [OF br da, of "(C, D)"] vc(1) vd(1) N2l
    by (simp_all add: N2_def n2_def w_def W_def)
  have "0 < N1 * w" using N10 w0 by (rule mult_pos_pos)
  with b1 have n1pos: "0 < n1" by linarith
  have "0 < N2 * w" using N20 w0 by (rule mult_pos_pos)
  with b2 have n2pos: "0 < n2" by linarith
  show "0 < linalg_norm fl dot (fl a, fl b)" using n1pos by (simp add: n1_def A_def B_def)
  show "0 < linalg_norm fl dot (fl c, fl d)" using n2pos by (simp add: n2_def C_def D_def)
  have G0: "0 < G" unfolding G_def using N10 N20 by (rule mult_pos_pos)
  have "(1 / 2 ^ 501) * (1 / 2 ^ 501) \<le> N1 * N2" using N1l N2l by (intro mult_mono) simp_all
  then have Gl: "1 / 2 ^ 1002 \<le> G" by (simp add: G_def)
  have "N1 * N2 \<le> 2 ^ 502 * 2 ^ 502" using N1u N2u N10 N20 by (intro mult_mono) simp_all
  then have Gu: "G \<le> 2 ^ 1004" by (simp add: G_def)
  have "(N1 * w) * (N2 * w) \<le> n1 * n2"
    using b1 b2 N10 N20 w0 n1pos by (intro mult_mono) simp_all
  then have ml: "G * (w * w) \<le> m" by (simp add: G_def m_def algebra_simps)
  have "n1 * n2 \<le> (N1 * W) * (N2 * W)"
    using b1u b2u n1pos n2pos N10 N20 W0 by (intro mult_mono) simp_all
  then have mu: "m \<le> G * (W * W)" by (simp add: G_def m_def algebra_simps)
  have "(1 / 2 ^ 1002) * (w * w) \<le> G * (w * w)" using Gl w0 by (intro mult_right_mono) simp_all
  moreover have "(1 / 2 ^ 1022 :: real) \<le> (1 / 2 ^ 1002) * (w * w)" by (simp add: w_def)
  ultimately have "1 / 2 ^ 1022 \<le> G * (w * w)" by linarith
  with ml have mlo: "1 / 2 ^ 1022 \<le> m" by linarith
  have "G * (W * W) \<le> 2 ^ 1004 * (W * W)" using Gu W0 by (intro mult_right_mono) simp_all
  moreover have "2 ^ 1004 * (W * W) \<le> 2 ^ 1023" by (simp add: W_def)
  ultimately have "G * (W * W) \<le> 2 ^ 1023" by linarith
  with mu have mhi: "m \<le> 2 ^ 1023" by linarith
  have "(G * (w * w)) * (1 - u) \<le> m * (1 - u)" using ml by (intro mult_right_mono) (simp_all add: u_def)
  also have "\<dots> \<le> P" unfolding P_def u_def by (rule br_lower [OF br mlo mhi])
  finally have "G * ((w * w) * (1 - u)) \<le> P" by (simp add: mult.assoc)
  moreover have "G * (1 / 2) \<le> G * ((w * w) * (1 - u))"
    using G0 by (intro mult_left_mono) (simp_all add: w_def u_def)
  ultimately have Pl: "G / 2 \<le> P" by simp
  with G0 have Ppos: "0 < P" by linarith
  have x1: "\<bar>A * C\<bar> \<le> 2 ^ 1021" using square_bound(2) [OF va(1) vc(1)] .
  have y1: "\<bar>B * D\<bar> \<le> 2 ^ 1021" using square_bound(2) [OF vb(1) vd(1)] .
  have "\<bar>A\<bar> * \<bar>C\<bar> \<le> N1 * N2" using AN CN N10 by (intro mult_mono) simp_all
  then have xG: "\<bar>A * C\<bar> \<le> G" by (simp add: abs_mult G_def)
  have "\<bar>B\<bar> * \<bar>D\<bar> \<le> N1 * N2" using BN DN N10 by (intro mult_mono) simp_all
  then have yG: "\<bar>B * D\<bar> \<le> G" by (simp add: abs_mult G_def)
  have U3: "(3 / 2 ^ 53 :: real) = 3 * u" and H4: "(4 / 2 ^ 1075 :: real) = 4 * h"
    by (simp_all add: u_def h_def)
  have u0: "0 \<le> u" by (simp add: u_def)
  have "\<bar>dot (A, B) (C, D) - (fst (A, B) * fst (C, D) + snd (A, B) * snd (C, D))\<bar>
      \<le> (\<bar>fst (A, B) * fst (C, D)\<bar> + \<bar>snd (A, B) * snd (C, D)\<bar>) * (3 / 2 ^ 53) + 4 / 2 ^ 1075"
    by (rule da_error [OF da]) (simp_all only: fst_conv snd_conv x1 y1)
  then have "\<bar>Z - (A * C + B * D)\<bar> \<le> (\<bar>A * C\<bar> + \<bar>B * D\<bar>) * (3 * u) + 4 * h"
    unfolding U3 H4 by (simp only: fst_conv snd_conv Z_def)
  moreover have "(\<bar>A * C\<bar> + \<bar>B * D\<bar>) * (3 * u) \<le> (G + G) * (3 * u)"
    using xG yG u0 by (intro mult_right_mono) simp_all
  ultimately have e1: "\<bar>Z - (A * C + B * D)\<bar> \<le> (G + G) * (3 * u) + 4 * h"
    by linarith
  have e2: "\<bar>A * C - a * c\<bar> \<le> G * (2 * (2 * u) + (2 * u) * (2 * u))"
    unfolding G_def using va(3) vc(3) AN CN
    by (intro product_error) (simp_all add: A_def C_def u_def)
  have e3: "\<bar>B * D - b * d\<bar> \<le> G * (2 * (2 * u) + (2 * u) * (2 * u))"
    unfolding G_def using vb(3) vd(3) BN DN
    by (intro product_error) (simp_all add: B_def D_def u_def)
  have "A * C + B * D = (A * C - a * c) + (B * D - b * d)" using perp by simp
  then have "\<bar>A * C + B * D\<bar> \<le> \<bar>A * C - a * c\<bar> + \<bar>B * D - b * d\<bar>" by linarith
  with e2 e3 have e4: "\<bar>A * C + B * D\<bar> \<le> 2 * (G * (2 * (2 * u) + (2 * u) * (2 * u)))"
    by linarith
  have "\<bar>Z\<bar> \<le> \<bar>Z - (A * C + B * D)\<bar> + \<bar>A * C + B * D\<bar>" by linarith
  with e1 e4 have "\<bar>Z\<bar> \<le> (G + G) * (3 * u) + 4 * h + 2 * (G * (2 * (2 * u) + (2 * u) * (2 * u)))"
    by linarith
  moreover have "4 * h \<le> G * u"
  proof -
    have "4 * h \<le> (1 / 2 ^ 1002) * u" by (simp add: h_def u_def)
    also have "\<dots> \<le> G * u" using Gl by (intro mult_right_mono) (simp_all add: u_def)
    finally show ?thesis .
  qed
  ultimately have "\<bar>Z\<bar> \<le> (G + G) * (3 * u) + G * u + 2 * (G * (2 * (2 * u) + (2 * u) * (2 * u)))"
    by linarith
  also have "\<dots> = G * (15 * u + 8 * (u * u))" by (simp add: algebra_simps)
  also have "\<dots> \<le> G * (1 / 8)"
    using G0 by (intro mult_left_mono) (simp_all add: u_def)
  finally have "\<bar>Z\<bar> \<le> G / 8" by simp
  with Pl have ZP: "\<bar>Z\<bar> \<le> P / 4" by linarith
  have "\<bar>Z / P\<bar> = \<bar>Z\<bar> / P" using Ppos by simp
  also have "\<dots> \<le> (P / 4) / P" using ZP Ppos by (intro divide_right_mono) simp_all
  also have "\<dots> = 1 / 4" using Ppos by simp
  finally have q: "\<bar>Z / P\<bar> \<le> 1 / 4" .
  have "(1 / 4 :: real) \<le> 2 ^ 1023" by simp
  with q have qr: "\<bar>Z / P\<bar> \<le> 2 ^ 1023" by (rule order_trans)
  have "\<bar>fl (Z / P)\<bar> \<le> \<bar>Z / P\<bar> + (\<bar>Z / P\<bar> * (1 / 2 ^ 53) + 1 / 2 ^ 1075)"
    by (rule br_abs_value [OF br qr])
  moreover have "\<bar>Z / P\<bar> * (1 / 2 ^ 53) \<le> (1 / 4) * (1 / 2 ^ 53)"
    using q by (intro mult_right_mono) simp_all
  moreover have "(1 / 4 :: real) + ((1 / 4) * (1 / 2 ^ 53) + 1 / 2 ^ 1075) \<le> 1 / 2" by simp
  ultimately have "\<bar>fl (Z / P)\<bar> \<le> 1 / 2" using q by linarith
  then show "\<bar>fl (dot (fl a, fl b) (fl c, fl d)
          / fl (linalg_norm fl dot (fl a, fl b) * linalg_norm fl dot (fl c, fl d)))\<bar> \<le> 1 / 2"
    by (simp add: Z_def P_def m_def n1_def n2_def A_def B_def C_def D_def)
qed

lemma right_angle:
  assumes br: "binary64_rounding fl" and da: "dot_accuracy dot"
    and m: "moderate (fst p1 - fst p0)" "moderate (snd p1 - snd p0)"
      "moderate (fst p2 - fst p1)" "moderate (snd p2 - snd p1)"
    and nz1: "p0 \<noteq> p1" and nz2: "p1 \<noteq> p2"
    and perp: "(fst p1 - fst p0) * (fst p2 - fst p1) + (snd p1 - snd p0) * (snd p2 - snd p1) = 0"
  shows "turns fl dot 45 (p0, p1, p2)"
proof -
  from nz1 have z1: "fst p1 - fst p0 \<noteq> 0 \<or> snd p1 - snd p0 \<noteq> 0"
    by (auto simp: prod_eq_iff)
  from nz2 have z2: "fst p2 - fst p1 \<noteq> 0 \<or> snd p2 - snd p1 \<noteq> 0"
    by (auto simp: prod_eq_iff)
  note pc = perpendicular_cosine [OF br da m z1 z2 perp]
  have "45 \<le> turn_angle fl dot (heading fl p0 p1) (heading fl p1 p2)"
    unfolding turn_angle_def Let_def heading_def by (rule wide_angle [OF br pc(3)])
  with pc(1) pc(2) show ?thesis by (simp add: turns_def heading_def)
qed

text \<open>
  The loop as a count over the consecutive triplets, and the values that \<open>binary64\<close>
  gives on the samples (0,0), (1,1), (2,2) and on a right-angle turn of length
  \<^verbatim>\<open>2^-600\<close>.
\<close>

lemma triplets_index:
  "map (\<lambda>i. f (zs ! (i - 2)) (zs ! (i - 1)) (zs ! i)) [2..<length zs]
     = map (\<lambda>(p, q, r). f p q r) (triplets zs)"
proof (induction zs rule: triplets.induct)
  case (1 p q r ps)
  let ?zs = "p # q # r # ps"
  have "[2..<Suc (Suc (Suc (length ps)))] = 2 # [Suc 2..<Suc (Suc (Suc (length ps)))]"
    by (rule upt_conv_Cons) simp
  also have "[Suc 2..<Suc (Suc (Suc (length ps)))] = map Suc [2..<Suc (Suc (length ps))]"
    by (rule map_Suc_upt [symmetric])
  finally have "[2..<length ?zs] = 2 # map Suc [2..<length (q # r # ps)]"
    by simp
  then have "map (\<lambda>i. f (?zs ! (i - 2)) (?zs ! (i - 1)) (?zs ! i)) [2..<length ?zs]
      = f p q r # map (\<lambda>i. f (?zs ! (Suc i - 2)) (?zs ! (Suc i - 1)) (?zs ! Suc i))
                      [2..<length (q # r # ps)]"
    by (simp add: comp_def)
  also have "map (\<lambda>i. f (?zs ! (Suc i - 2)) (?zs ! (Suc i - 1)) (?zs ! Suc i))
                 [2..<length (q # r # ps)]
      = map (\<lambda>i. f ((q # r # ps) ! (i - 2)) ((q # r # ps) ! (i - 1)) ((q # r # ps) ! i))
            [2..<length (q # r # ps)]"
  proof (rule map_cong)
    fix i assume "i \<in> set [2..<length (q # r # ps)]"
    then have i: "2 \<le> i" by (simp only: set_upt atLeastLessThan_iff)
    then have a: "Suc i - 2 = i - 1" and b: "Suc i - 1 = i" by simp_all
    from i have "0 < i - 1" and "0 < i" by simp_all
    then have "?zs ! (i - 1) = (q # r # ps) ! (i - 1 - 1)" and d: "?zs ! i = (q # r # ps) ! (i - 1)"
      by (simp_all only: nth_Cons_pos)
    moreover have "i - 1 - 1 = i - 2" by simp
    ultimately have c: "?zs ! (i - 1) = (q # r # ps) ! (i - 2)" by (simp only:)
    show "f (?zs ! (Suc i - 2)) (?zs ! (Suc i - 1)) (?zs ! Suc i)
        = f ((q # r # ps) ! (i - 2)) ((q # r # ps) ! (i - 1)) ((q # r # ps) ! i)"
      unfolding a b c d by simp
  qed simp
  finally show ?case using 1 by simp
qed simp_all

lemma count_loop:
  "foldl (\<lambda>c i. if P i then c + 1 else c) c0 is = c0 + int (length (filter P is))"
  by (induction "is" arbitrary: c0) simp_all

lemma length_filter_map: "length (filter P (map f xs)) = length (filter (\<lambda>x. P (f x)) xs)"
  by (induction xs) simp_all

lemma direction_loop:
  "foldl (\<lambda>direction_changes i.
            let v1 = (fl (map (\<lambda>r. r xc) samples ! (i - 1) - map (\<lambda>r. r xc) samples ! (i - 2)),
                      fl (map (\<lambda>r. r yc) samples ! (i - 1) - map (\<lambda>r. r yc) samples ! (i - 2)));
                v2 = (fl (map (\<lambda>r. r xc) samples ! i - map (\<lambda>r. r xc) samples ! (i - 1)),
                      fl (map (\<lambda>r. r yc) samples ! i - map (\<lambda>r. r yc) samples ! (i - 1)))
            in if linalg_norm fl dot v1 > 0 \<and> linalg_norm fl dot v2 > 0
               then (if turn_angle fl dot v1 v2 \<ge> threshold
                     then direction_changes + 1 else direction_changes)
               else direction_changes)
         (0::int) [2..<length (map (\<lambda>r. r xc) samples)]
     = direction_count fl dot threshold (map (\<lambda>r. (r xc, r yc)) samples)"
proof -
  define pts where "pts = map (\<lambda>r. (r xc, r yc)) samples"
  define xs where "xs = map (\<lambda>r. r xc) samples"
  define ys where "ys = map (\<lambda>r. r yc) samples"
  define P where "P = (\<lambda>i. turns fl dot threshold (pts ! (i - 2), pts ! (i - 1), pts ! i))"
  have step: "(let v1 = (fl (xs ! (i - 1) - xs ! (i - 2)), fl (ys ! (i - 1) - ys ! (i - 2)));
                   v2 = (fl (xs ! i - xs ! (i - 1)), fl (ys ! i - ys ! (i - 1)))
               in if linalg_norm fl dot v1 > 0 \<and> linalg_norm fl dot v2 > 0
                  then (if turn_angle fl dot v1 v2 \<ge> threshold then c + 1 else c)
                  else c) = (if P i then c + 1 else c)"
    if "i \<in> set [2..<length xs]" for i and c :: int
  proof -
    from that have "i < length samples" "i - 1 < length samples" "i - 2 < length samples"
      by (auto simp: xs_def)
    then show ?thesis
      by (simp add: P_def turns_def heading_def pts_def xs_def ys_def Let_def)
  qed
  have "foldl (\<lambda>c i.
           let v1 = (fl (xs ! (i - 1) - xs ! (i - 2)), fl (ys ! (i - 1) - ys ! (i - 2)));
               v2 = (fl (xs ! i - xs ! (i - 1)), fl (ys ! i - ys ! (i - 1)))
           in if linalg_norm fl dot v1 > 0 \<and> linalg_norm fl dot v2 > 0
              then (if turn_angle fl dot v1 v2 \<ge> threshold then c + 1 else c)
              else c) (0::int) [2..<length xs]
      = foldl (\<lambda>c i. if P i then c + 1 else c) 0 [2..<length xs]"
    by (rule foldl_cong [OF refl refl]) (rule step)
  also have "\<dots> = int (length (filter P [2..<length xs]))"
    by (simp add: count_loop)
  also have "length (filter P [2..<length xs])
      = length (filter (turns fl dot threshold)
          (map (\<lambda>i. (pts ! (i - 2), pts ! (i - 1), pts ! i)) [2..<length pts]))"
    by (simp add: length_filter_map P_def pts_def xs_def comp_def)
  also have "map (\<lambda>i. (pts ! (i - 2), pts ! (i - 1), pts ! i)) [2..<length pts] = triplets pts"
    using triplets_index [of "\<lambda>p q r. (p, q, r)" pts] by simp
  finally show ?thesis
    unfolding xs_def ys_def pts_def by (simp only: direction_count_def)
qed

lemma direction_changes_resolved:
  assumes "3 \<le> length (rows df)"
    and "find_column (columns df) x_names = xc" and "xc \<noteq> []"
    and "find_column (columns df) y_names = yc" and "yc \<noteq> []"
  shows "calculate_direction_changes fl dot sort_values df threshold =
     direction_count fl dot threshold (map (\<lambda>r. (r xc, r yc))
       (if find_column (columns df) time_names \<noteq> []
        then sort_values (find_column (columns df) time_names) (rows df) else rows df))"
  unfolding calculate_direction_changes_def Let_def direction_loop [unfolded Let_def]
  using assms by simp

lemma sqrt2_lower: "6369051672525773 - 1 / 2 < sqrt 2 * 2 ^ 52"
proof -
  have "((6369051672525773 - 1 / 2) / 2 ^ 52)\<^sup>2 < (2::real)" by (simp add: power2_eq_square)
  then have "(6369051672525773 - 1 / 2) / 2 ^ 52 < sqrt 2" by (rule real_less_rsqrt)
  then show ?thesis by (simp add: field_simps)
qed

lemma sqrt2_upper: "sqrt 2 * 2 ^ 52 < 6369051672525773 + 1 / 2"
proof -
  have "(2::real) < ((6369051672525773 + 1 / 2) / 2 ^ 52)\<^sup>2" by (simp add: power2_eq_square)
  then have "sqrt 2 < (6369051672525773 + 1 / 2) / 2 ^ 52" by (intro real_less_lsqrt) simp_all
  then show ?thesis by (simp add: field_simps)
qed

lemma fl64_sqrt2: "fl64 (sqrt 2) = 6369051672525773 / 2 ^ 52"
proof -
  have "1 < sqrt 2" and "sqrt 2 < 2"
    by (simp_all add: real_less_lsqrt)
  then have "pow2 0 \<le> \<bar>sqrt 2\<bar>" and "\<bar>sqrt 2\<bar> < pow2 (0 + 1)"
    by (simp_all add: pow2_def)
  moreover from sqrt2_lower
  have "real_of_int 6369051672525773 - 1 / 2 < sqrt 2 / pow2 (0 - 52)"
    by (simp add: pow2_def)
  moreover from sqrt2_upper
  have "sqrt 2 / pow2 (0 - 52) < real_of_int 6369051672525773 + 1 / 2"
    by (simp add: pow2_def)
  ultimately have "fl64 (sqrt 2) = real_of_int 6369051672525773 * pow2 (0 - 52)"
    by (rule fl64_round)
  then show ?thesis by (simp add: pow2_def)
qed

lemma fl64_norm_squared:
  "fl64 ((6369051672525773 / 2 ^ 52) * (6369051672525773 / 2 ^ 52)) = 4503599627370497 / 2 ^ 51"
  using fl64_round [of 1 "(6369051672525773 / 2 ^ 52) * (6369051672525773 / 2 ^ 52)"
      4503599627370497]
  by (simp add: pow2_def)

lemma fl64_cosine: "fl64 (2 / (4503599627370497 / 2 ^ 51)) = 9007199254740990 / 2 ^ 53"
  using fl64_round [of "- 1" "2 / (4503599627370497 / 2 ^ 51)" 9007199254740990]
  by (simp add: pow2_def)

lemma arccos_residue: "1 / 2 ^ 26 \<le> arccos (9007199254740990 / 2 ^ 53)"
proof (rule ccontr)
  let ?c = "9007199254740990 / 2 ^ 53 :: real"
  let ?a = "arccos ?c"
  assume "\<not> 1 / 2 ^ 26 \<le> ?a"
  then have small: "?a < 1 / 2 ^ 26" by simp
  have c: "- 1 \<le> ?c" "?c \<le> 1" by simp_all
  then have pos: "0 \<le> ?a" and cs: "cos ?a = ?c"
    by (simp_all add: arccos_lbound cos_arccos)
  from pos small have "?a * ?a \<le> (1 / 2 ^ 26) * (1 / 2 ^ 26)"
    by (intro mult_mono) simp_all
  then have "?a\<^sup>2 \<le> 1 / 2 ^ 52" by (simp add: power2_eq_square)
  then have "1 - (1 / 2 ^ 52) / 2 \<le> 1 - ?a\<^sup>2 / 2" by simp
  also have "\<dots> \<le> cos ?a" by (rule cos_lower)
  finally have "1 - (1 / 2 ^ 52) / 2 \<le> ?c" by (simp only: cs)
  then show False by simp
qed

lemma binary64_ge_pow2:
  assumes "- 1022 \<le> k" and "pow2 k \<le> x"
  shows "pow2 k \<le> binary64 x"
proof -
  from assms(1) have "pow2 (- 1022) \<le> pow2 k" by (rule pow2_mono)
  with assms(2) pow2_pos [of k] have "pow2 (- 1022) \<le> \<bar>x\<bar>" by linarith
  then have "binary64 x = fl64 x" by (rule binary64_normal)
  with fl64_ge_pow2 [OF assms(2)] show ?thesis by simp
qed

lemma binary64_one: "binary64 1 = 1"
proof -
  have "pow2 (- 1022) \<le> \<bar>1 :: real\<bar>" using pow2_mono [of "- 1022" 0] by (simp add: pow2_def)
  then show ?thesis by (simp only: binary64_normal fl64_one)
qed

lemma binary64_two: "binary64 2 = 2"
proof -
  have "pow2 (- 1022) \<le> \<bar>2 :: real\<bar>" using pow2_mono [of "- 1022" 1] by (simp add: pow2_def)
  then show ?thesis by (simp only: binary64_normal fl64_two)
qed

lemma binary64_sqrt2: "binary64 (sqrt 2) = 6369051672525773 / 2 ^ 52"
proof -
  have "pow2 (- 1022) \<le> 1" using pow2_mono [of "- 1022" 0] by (simp add: pow2_def)
  moreover have "1 \<le> sqrt 2" by simp
  ultimately have "pow2 (- 1022) \<le> sqrt 2" by (rule order_trans)
  then have "pow2 (- 1022) \<le> \<bar>sqrt 2\<bar>" by simp
  then show ?thesis by (simp only: binary64_normal fl64_sqrt2)
qed

lemma binary64_norm_squared:
  "binary64 ((6369051672525773 / 2 ^ 52) * (6369051672525773 / 2 ^ 52)) = 4503599627370497 / 2 ^ 51"
proof -
  have "pow2 (- 1022) \<le> 1" using pow2_mono [of "- 1022" 0] by (simp add: pow2_def)
  moreover have "(1 :: real) \<le> \<bar>(6369051672525773 / 2 ^ 52) * (6369051672525773 / 2 ^ 52)\<bar>"
    by simp
  ultimately have "pow2 (- 1022) \<le> \<bar>(6369051672525773 / 2 ^ 52) * (6369051672525773 / 2 ^ 52) :: real\<bar>"
    by (rule order_trans)
  then show ?thesis by (simp only: binary64_normal fl64_norm_squared)
qed

lemma binary64_cosine: "binary64 (2 / (4503599627370497 / 2 ^ 51)) = 9007199254740990 / 2 ^ 53"
proof -
  have "pow2 (- 1022) \<le> 1 / 2" using pow2_mono [of "- 1022" "- 1"] by (simp add: pow2_def)
  moreover have "(1 / 2 :: real) \<le> \<bar>2 / (4503599627370497 / 2 ^ 51)\<bar>" by simp
  ultimately have "pow2 (- 1022) \<le> \<bar>2 / (4503599627370497 / 2 ^ 51) :: real\<bar>"
    by (rule order_trans)
  then show ?thesis by (simp only: binary64_normal fl64_cosine)
qed

lemma degrees_pow2: "pow2 5 \<le> binary64 (180 / pi)"
proof (rule binary64_ge_pow2)
  have "32 * pi \<le> 180" using pi_less_4 by simp
  then have "32 \<le> 180 / pi" by (simp add: pos_le_divide_eq)
  then show "pow2 5 \<le> 180 / pi" by (simp add: pow2_def)
qed simp

lemma collinear_residue:
  assumes d: "dot (1, 1) (1, 1) = 2"
  shows "1 / 10 ^ 7 \<le> turn_angle binary64 dot (1, 1) (1, 1)"
proof -
  have n: "linalg_norm binary64 dot (1, 1) = 6369051672525773 / 2 ^ 52"
    by (simp only: linalg_norm_def d binary64_sqrt2)
  have c: "binary64 (dot (1, 1) (1, 1)
        / binary64 (linalg_norm binary64 dot (1, 1) * linalg_norm binary64 dot (1, 1)))
      = 9007199254740990 / 2 ^ 53"
    by (simp only: d n binary64_norm_squared binary64_cosine)
  have "np_clip (9007199254740990 / 2 ^ 53) (- 1) 1 = 9007199254740990 / 2 ^ 53"
    by (simp add: np_clip_def)
  with c have t: "turn_angle binary64 dot (1, 1) (1, 1)
      = binary64 (binary64 (arccos (9007199254740990 / 2 ^ 53)) * binary64 (180 / pi))"
    by (simp only: turn_angle_def Let_def np_degrees_def)
  have "pow2 (- 26) \<le> arccos (9007199254740990 / 2 ^ 53)"
    using arccos_residue by (simp add: pow2_def)
  then have a: "pow2 (- 26) \<le> binary64 (arccos (9007199254740990 / 2 ^ 53))"
    by (intro binary64_ge_pow2) simp_all
  have "pow2 (- 26) * pow2 5
      \<le> binary64 (arccos (9007199254740990 / 2 ^ 53)) * binary64 (180 / pi)"
    using a degrees_pow2 pow2_pos [of "- 26"] pow2_pos [of 5]
    by (intro mult_mono) simp_all
  then have "pow2 (- 21)
      \<le> binary64 (arccos (9007199254740990 / 2 ^ 53)) * binary64 (180 / pi)"
    using pow2_add [of "- 26" 5] by simp
  then have "pow2 (- 21) \<le> turn_angle binary64 dot (1, 1) (1, 1)"
    unfolding t by (intro binary64_ge_pow2) simp_all
  moreover have "(1::real) / 10 ^ 7 \<le> pow2 (- 21)" by (simp add: pow2_def)
  ultimately show ?thesis by linarith
qed

lemma binary64_tiny: "binary64 tiny = tiny"
proof -
  have p: "pow2 (- 600) = tiny" by (simp add: pow2_def tiny_def)
  have "pow2 (- 1022) \<le> pow2 (- 600)" by (rule pow2_mono) simp
  moreover have "0 < tiny" by (simp add: tiny_def)
  ultimately have "pow2 (- 1022) \<le> \<bar>tiny\<bar>" by (simp add: p)
  then have "binary64 tiny = fl64 tiny" by (rule binary64_normal)
  also have "\<dots> = real_of_int (2 ^ 52) * pow2 (- 600 - 52)"
    by (rule fl64_round) (simp_all add: pow2_def tiny_def)
  also have "\<dots> = tiny" by (simp add: pow2_def tiny_def)
  finally show ?thesis .
qed

lemma binary64_underflow: "binary64 (tiny * tiny) = 0"
proof -
  have x0: "tiny * tiny \<noteq> 0" by (simp add: tiny_def)
  have xs: "\<bar>tiny * tiny\<bar> < pow2 (- 1022)" by (simp add: tiny_def pow2_def)
  have "rne (tiny * tiny / pow2 (- 1074)) = 0"
    by (rule rne_unique) (simp_all add: tiny_def pow2_def)
  with binary64_subnormal [OF x0 xs] show ?thesis by simp
qed

lemma underflow_norm:
  assumes "dot (tiny, 0) (tiny, 0) = 0"
  shows "linalg_norm binary64 dot (heading binary64 (0, 0) (tiny, 0)) = 0"
  by (simp add: heading_def binary64_tiny binary64_zero linalg_norm_def assms)

lemma underflow_dot:
  "np_dot binary64 (tiny, 0) (tiny, 0) = 0"
  "np_dot_rounded binary64 (tiny, 0) (tiny, 0) = 0"
  by (simp_all add: np_dot_def np_dot_rounded_def binary64_underflow binary64_zero)

lemma collinear_dot:
  "np_dot binary64 (1, 1) (1, 1) = 2" "np_dot_rounded binary64 (1, 1) (1, 1) = 2"
  by (simp_all add: np_dot_def np_dot_rounded_def binary64_one binary64_two)

lemma straight_angle_exact:
  assumes "0 < linalg_norm (\<lambda>x. x) (np_dot (\<lambda>x. x)) v"
  shows "turn_angle (\<lambda>x. x) (np_dot (\<lambda>x. x)) v v = 0"
proof -
  define s where "s = fst v * fst v + snd v * snd v"
  from assms have "0 < sqrt s" by (simp add: linalg_norm_def np_dot_def s_def)
  then have s: "0 < s" by simp
  then have "sqrt s * sqrt s = s" by simp
  with s have "s / (sqrt s * sqrt s) = 1" by simp
  then show ?thesis
    by (simp add: turn_angle_def Let_def np_degrees_def np_clip_def linalg_norm_def np_dot_def
        s_def)
qed

lemma turn_angle_exact:
  "turn_angle (\<lambda>x. x) (np_dot (\<lambda>x. x)) v1 v2 =
     arccos (min 1 (max ((fst v1 * fst v2 + snd v1 * snd v2)
                          / (sqrt ((fst v1)\<^sup>2 + (snd v1)\<^sup>2) * sqrt ((fst v2)\<^sup>2 + (snd v2)\<^sup>2)))
                        (- 1)))
       * (180 / pi)"
  by (simp add: turn_angle_def Let_def np_degrees_def np_clip_def linalg_norm_def np_dot_def
      power2_eq_square)

lemma evenly_spaced_heading:
  assumes "fst p1 - fst p0 = fst p2 - fst p1" and "snd p1 - snd p0 = snd p2 - snd p1"
  shows "heading fl p1 p2 = heading fl p0 p1"
  unfolding heading_def by (simp only: assms)

lemma direction_count_three:
  "direction_count fl dot threshold [p0, p1, p2]
     = (if turns fl dot threshold (p0, p1, p2) then 1 else 0)"
  by (simp add: direction_count_def)

lemma heading_bound:
  assumes br: "binary64_rounding fl" and "\<bar>a\<bar> \<le> 2 ^ 500"
  shows "\<bar>fl a\<bar> \<le> 2 ^ 501"
proof -
  have "(2 ^ 500 :: real) \<le> 2 ^ 1023" by simp
  with assms(2) have "\<bar>a\<bar> \<le> 2 ^ 1023" by (rule order_trans)
  from br_abs_value [OF br this]
  have "\<bar>fl a\<bar> \<le> \<bar>a\<bar> + (\<bar>a\<bar> * (1 / 2 ^ 53) + 1 / 2 ^ 1075)" .
  moreover have "\<bar>a\<bar> * (1 / 2 ^ 53) \<le> 2 ^ 500 * (1 / 2 ^ 53)"
    using assms(2) by (intro mult_right_mono) simp_all
  moreover have "(2 ^ 500 :: real) + (2 ^ 500 * (1 / 2 ^ 53) + 1 / 2 ^ 1075) \<le> 2 ^ 501" by simp
  ultimately show ?thesis using assms(2) by linarith
qed

lemma collinear_count:
  assumes d: "dot (1, 1) (1, 1) = 2"
  shows "calculate_direction_changes binary64 dot stable_sort_values
     (track [sample 0 0 0, sample 1 1 1, sample 2 2 2]) (1 / 10 ^ 7) = 1"
proof -
  let ?df = "track [sample 0 0 0, sample 1 1 1, sample 2 2 2]"
  have x: "find_column (columns ?df) x_names = ''x''" and y: "find_column (columns ?df) y_names = ''y''"
    and t: "find_column (columns ?df) time_names = ''time''"
    by (simp_all add: track_def x_names_def y_names_def time_names_def)
  have n: "3 \<le> length (rows ?df)" by (simp add: track_def)
  have s: "stable_sort_values ''time'' (rows ?df) = rows ?df"
    by (simp add: stable_sort_values_def track_def sample_def)
  have p: "map (\<lambda>r. (r ''x'', r ''y'')) (rows ?df) = [(0, 0), (1, 1), (2, 2)]"
    by (simp add: track_def sample_def)
  have nm: "linalg_norm binary64 dot (1, 1) = 6369051672525773 / 2 ^ 52"
    by (simp only: linalg_norm_def d binary64_sqrt2)
  have "calculate_direction_changes binary64 dot stable_sort_values ?df (1 / 10 ^ 7)
      = direction_count binary64 dot (1 / 10 ^ 7) [(0, 0), (1, 1), (2, 2)]"
    using direction_changes_resolved [OF n x _ y, of binary64 dot stable_sort_values "1 / 10 ^ 7"]
    by (simp add: t s p)
  also have "\<dots> = 1"
    using collinear_residue [of dot, OF d]
    by (simp add: direction_count_def turns_def heading_def binary64_one nm)
  finally show ?thesis .
qed

lemma underflow_count:
  assumes d: "dot (tiny, 0) (tiny, 0) = 0"
  shows "calculate_direction_changes binary64 dot stable_sort_values
     (track [sample 0 0 0, sample 1 tiny 0, sample 2 tiny tiny]) 45 = 0"
proof -
  let ?df = "track [sample 0 0 0, sample 1 tiny 0, sample 2 tiny tiny]"
  have x: "find_column (columns ?df) x_names = ''x''" and y: "find_column (columns ?df) y_names = ''y''"
    and t: "find_column (columns ?df) time_names = ''time''"
    by (simp_all add: track_def x_names_def y_names_def time_names_def)
  have n: "3 \<le> length (rows ?df)" by (simp add: track_def)
  have s: "stable_sort_values ''time'' (rows ?df) = rows ?df"
    by (simp add: stable_sort_values_def track_def sample_def)
  have p: "map (\<lambda>r. (r ''x'', r ''y'')) (rows ?df) = [(0, 0), (tiny, 0), (tiny, tiny)]"
    by (simp add: track_def sample_def)
  have "calculate_direction_changes binary64 dot stable_sort_values ?df 45
      = direction_count binary64 dot 45 [(0, 0), (tiny, 0), (tiny, tiny)]"
    using direction_changes_resolved [OF n x _ y, of binary64 dot stable_sort_values 45]
    by (simp add: t s p)
  also have "\<dots> = 0"
    by (simp add: direction_count_def turns_def underflow_norm [of dot, OF d])
  finally show ?thesis .
qed

text \<open>
  Claim C5, as amended. \<^verbatim>\<open>calculate_direction_changes\<close> returns 0 for fewer than
  three samples and for an unresolved x or y column. Otherwise it is the number of
  consecutive triplets of the time-sorted samples whose two heading vectors both have a
  positive norm and form an angle of at least the threshold; the angle is the inverse
  cosine, in degrees, of the normalised dot product clipped to [-1, 1]. A triplet with a
  segment of zero length is never counted. Three collinear, evenly spaced samples give 0
  at every positive threshold in exact arithmetic, and at every threshold from 0.0001
  degrees upwards in binary64 (spacing up to \<^verbatim>\<open>2^500\<close>). Three samples with one exact
  90 degree turn give 1 at the threshold 45 in binary64 when the coordinate differences
  of the two segments are zero or between \<^verbatim>\<open>2^-500\<close> and \<^verbatim>\<open>2^500\<close> in magnitude.
  The statements on binary64 hold for every rounding and every dot product that meet
  \<open>binary64_rounding\<close> and \<open>dot_accuracy\<close>.
\<close>

theorem direction_changes_count:
  assumes "sorting sort_values"
  shows "(length (rows df) < 3 \<longrightarrow> calculate_direction_changes fl dot sort_values df threshold = 0) \<and>
    (set x_names \<inter> set (columns df) = {} \<or> set y_names \<inter> set (columns df) = {} \<longrightarrow>
       calculate_direction_changes fl dot sort_values df threshold = 0) \<and>
    (3 \<le> length (rows df) \<and>
     find_column (columns df) x_names = xc \<and> xc \<noteq> [] \<and>
     find_column (columns df) y_names = yc \<and> yc \<noteq> [] \<longrightarrow>
       (\<exists>samples. mset samples = mset (rows df) \<and>
          (find_column (columns df) time_names \<noteq> [] \<longrightarrow>
             sorted (map (\<lambda>r. r (find_column (columns df) time_names)) samples)) \<and>
          (find_column (columns df) time_names = [] \<longrightarrow> samples = rows df) \<and>
          calculate_direction_changes fl dot sort_values df threshold
            = int (length (filter (turns fl dot threshold)
                (triplets (map (\<lambda>r. (r xc, r yc)) samples)))))) \<and>
    (turns fl dot threshold (p, q, r) \<longleftrightarrow>
       0 < linalg_norm fl dot (heading fl p q) \<and> 0 < linalg_norm fl dot (heading fl q r) \<and>
       threshold \<le> turn_angle fl dot (heading fl p q) (heading fl q r)) \<and>
    turn_angle (\<lambda>x. x) (np_dot (\<lambda>x. x)) v1 v2 =
       arccos (min 1 (max ((fst v1 * fst v2 + snd v1 * snd v2)
                          / (sqrt ((fst v1)\<^sup>2 + (snd v1)\<^sup>2) * sqrt ((fst v2)\<^sup>2 + (snd v2)\<^sup>2)))
                        (- 1)))
         * (180 / pi) \<and>
    (binary64_rounding fl \<and> dot_accuracy dot \<longrightarrow>
       \<not> turns fl dot threshold (p, p, r) \<and> \<not> turns fl dot threshold (p, r, r)) \<and>
    (fst p1 - fst p0 = fst p2 - fst p1 \<and> snd p1 - snd p0 = snd p2 - snd p1 \<and> 0 < threshold \<longrightarrow>
       direction_count (\<lambda>x. x) (np_dot (\<lambda>x. x)) threshold [p0, p1, p2] = 0) \<and>
    (fst p1 - fst p0 = fst p2 - fst p1 \<and> snd p1 - snd p0 = snd p2 - snd p1 \<and>
     \<bar>fst p1 - fst p0\<bar> \<le> 2 ^ 500 \<and> \<bar>snd p1 - snd p0\<bar> \<le> 2 ^ 500 \<and>
     binary64_rounding fl \<and> dot_accuracy dot \<and> 1 / 10 ^ 4 \<le> threshold \<longrightarrow>
       direction_count fl dot threshold [p0, p1, p2] = 0) \<and>
    (binary64_rounding fl \<and> dot_accuracy dot \<and> p0 \<noteq> p1 \<and> p1 \<noteq> p2 \<and>
     moderate (fst p1 - fst p0) \<and> moderate (snd p1 - snd p0) \<and>
     moderate (fst p2 - fst p1) \<and> moderate (snd p2 - snd p1) \<and>
     (fst p1 - fst p0) * (fst p2 - fst p1) + (snd p1 - snd p0) * (snd p2 - snd p1) = 0 \<longrightarrow>
       direction_count fl dot 45 [p0, p1, p2] = 1)"
proof -
  let ?d = "calculate_direction_changes fl dot sort_values df threshold"
  let ?tc = "find_column (columns df) time_names"
  have short: "?d = 0" if "length (rows df) < 3"
    using that by (simp add: calculate_direction_changes_def)
  have unresolved: "?d = 0"
    if "set x_names \<inter> set (columns df) = {} \<or> set y_names \<inter> set (columns df) = {}"
  proof -
    have "[] \<notin> set x_names" and "[] \<notin> set y_names"
      by (simp_all add: x_names_def y_names_def)
    with that have "find_column (columns df) x_names = [] \<or> find_column (columns df) y_names = []"
      by (simp add: find_column_empty)
    then show ?thesis by (auto simp: calculate_direction_changes_def Let_def)
  qed
  define samples where "samples = (if ?tc \<noteq> [] then sort_values ?tc (rows df) else rows df)"
  have perm: "mset samples = mset (rows df)"
    using assms by (simp add: samples_def sorting_def)
  have ordered: "?tc \<noteq> [] \<longrightarrow> sorted (map (\<lambda>r. r ?tc) samples)"
    using assms by (simp add: samples_def sorting_def)
  have same: "?tc = [] \<longrightarrow> samples = rows df"
    by (simp add: samples_def)
  have count: "?d = int (length (filter (turns fl dot threshold)
                (triplets (map (\<lambda>r. (r xc, r yc)) samples))))"
    if "3 \<le> length (rows df) \<and>
     find_column (columns df) x_names = xc \<and> xc \<noteq> [] \<and>
     find_column (columns df) y_names = yc \<and> yc \<noteq> []"
  proof -
    from that have "?d = direction_count fl dot threshold (map (\<lambda>r. (r xc, r yc)) samples)"
      unfolding samples_def by (intro direction_changes_resolved) simp_all
    then show ?thesis by (simp only: direction_count_def)
  qed
  have general: "\<exists>samples. mset samples = mset (rows df) \<and>
          (?tc \<noteq> [] \<longrightarrow> sorted (map (\<lambda>r. r ?tc) samples)) \<and>
          (?tc = [] \<longrightarrow> samples = rows df) \<and>
          ?d = int (length (filter (turns fl dot threshold)
                (triplets (map (\<lambda>r. (r xc, r yc)) samples))))"
    if "3 \<le> length (rows df) \<and>
     find_column (columns df) x_names = xc \<and> xc \<noteq> [] \<and>
     find_column (columns df) y_names = yc \<and> yc \<noteq> []"
    using perm ordered same count [OF that] by blast
  have rule: "turns fl dot threshold (p, q, r) \<longleftrightarrow>
       0 < linalg_norm fl dot (heading fl p q) \<and> 0 < linalg_norm fl dot (heading fl q r) \<and>
       threshold \<le> turn_angle fl dot (heading fl p q) (heading fl q r)"
    by (simp add: turns_def)
  have still: "\<not> turns fl dot threshold (p, p, r) \<and> \<not> turns fl dot threshold (p, r, r)"
    if "binary64_rounding fl \<and> dot_accuracy dot"
    using that by (simp add: turns_def still_norm)
  have exact: "direction_count (\<lambda>x. x) (np_dot (\<lambda>x. x)) threshold [p0, p1, p2] = 0"
    if h: "fst p1 - fst p0 = fst p2 - fst p1 \<and> snd p1 - snd p0 = snd p2 - snd p1 \<and> 0 < threshold"
  proof -
    from h have e: "heading (\<lambda>x. x) p1 p2 = heading (\<lambda>x. x) p0 p1"
      by (intro evenly_spaced_heading) simp_all
    have "\<not> turns (\<lambda>x. x) (np_dot (\<lambda>x. x)) threshold (p0, p1, p2)"
    proof
      assume "turns (\<lambda>x. x) (np_dot (\<lambda>x. x)) threshold (p0, p1, p2)"
      then have n: "0 < linalg_norm (\<lambda>x. x) (np_dot (\<lambda>x. x)) (heading (\<lambda>x. x) p0 p1)"
        and a: "threshold \<le> turn_angle (\<lambda>x. x) (np_dot (\<lambda>x. x))
                  (heading (\<lambda>x. x) p0 p1) (heading (\<lambda>x. x) p0 p1)"
        by (simp_all add: turns_def e)
      from a h show False by (simp add: straight_angle_exact [OF n])
    qed
    then show ?thesis by (simp add: direction_count_three)
  qed
  have rounded: "direction_count fl dot threshold [p0, p1, p2] = 0"
    if h: "fst p1 - fst p0 = fst p2 - fst p1 \<and> snd p1 - snd p0 = snd p2 - snd p1 \<and>
     \<bar>fst p1 - fst p0\<bar> \<le> 2 ^ 500 \<and> \<bar>snd p1 - snd p0\<bar> \<le> 2 ^ 500 \<and>
     binary64_rounding fl \<and> dot_accuracy dot \<and> 1 / 10 ^ 4 \<le> threshold"
  proof -
    from h have e: "heading fl p1 p2 = heading fl p0 p1"
      by (intro evenly_spaced_heading) simp_all
    from h have br: "binary64_rounding fl" and da: "dot_accuracy dot" by simp_all
    from h have hx: "\<bar>fst p1 - fst p0\<bar> \<le> 2 ^ 500" and hy: "\<bar>snd p1 - snd p0\<bar> \<le> 2 ^ 500"
      by blast+
    have b1: "\<bar>fst (heading fl p0 p1)\<bar> \<le> 2 ^ 501"
      unfolding heading_def fst_conv by (rule heading_bound [OF br hx])
    have b2: "\<bar>snd (heading fl p0 p1)\<bar> \<le> 2 ^ 501"
      unfolding heading_def snd_conv by (rule heading_bound [OF br hy])
    have "\<not> turns fl dot threshold (p0, p1, p2)"
    proof
      assume "turns fl dot threshold (p0, p1, p2)"
      then have n: "0 < linalg_norm fl dot (heading fl p0 p1)"
        and a: "threshold \<le> turn_angle fl dot (heading fl p0 p1) (heading fl p0 p1)"
        by (simp_all add: turns_def e)
      from straight_angle [OF br da n b1 b2] a h show False by linarith
    qed
    then show ?thesis by (simp add: direction_count_three)
  qed
  have turn: "direction_count fl dot 45 [p0, p1, p2] = 1"
    if h: "binary64_rounding fl \<and> dot_accuracy dot \<and> p0 \<noteq> p1 \<and> p1 \<noteq> p2 \<and>
     moderate (fst p1 - fst p0) \<and> moderate (snd p1 - snd p0) \<and>
     moderate (fst p2 - fst p1) \<and> moderate (snd p2 - snd p1) \<and>
     (fst p1 - fst p0) * (fst p2 - fst p1) + (snd p1 - snd p0) * (snd p2 - snd p1) = 0"
  proof -
    from h have "turns fl dot 45 (p0, p1, p2)"
      by (intro right_angle) simp_all
    then show ?thesis by (simp add: direction_count_three)
  qed
  from short unresolved general rule turn_angle_exact [of v1 v2] still exact rounded turn
  show ?thesis by blast
qed

theorem direction_changes_count_witness:
  "sorting stable_sort_values \<and> binary64_rounding binary64 \<and> dot_accuracy (np_dot binary64) \<and>
   length (rows (track [sample 0 0 0, sample 1 1 1])) < 3 \<and>
   calculate_direction_changes binary64 (np_dot binary64) stable_sort_values
     (track [sample 0 0 0, sample 1 1 1]) 45 = 0 \<and>
   set x_names \<inter> set (columns \<lparr>columns = [''time'', ''y''],
      rows = [sample 0 0 0, sample 1 1 0, sample 2 1 1]\<rparr>) = {} \<and>
   calculate_direction_changes binary64 (np_dot binary64) stable_sort_values
     \<lparr>columns = [''time'', ''y''], rows = [sample 0 0 0, sample 1 1 0, sample 2 1 1]\<rparr> 45 = 0 \<and>
   3 \<le> length (rows (track [sample 0 0 0, sample 1 1 0, sample 2 1 1])) \<and>
   (\<exists>samples. mset samples = mset (rows (track [sample 0 0 0, sample 1 1 0, sample 2 1 1])) \<and>
      sorted (map (\<lambda>r. r ''time'') samples) \<and>
      calculate_direction_changes binary64 (np_dot binary64) stable_sort_values
          (track [sample 0 0 0, sample 1 1 0, sample 2 1 1]) 45
        = int (length (filter (turns binary64 (np_dot binary64) 45)
            (triplets (map (\<lambda>r. (r ''x'', r ''y'')) samples))))) \<and>
   moderate 0 \<and> moderate 1 \<and>
   (1 - 0) * (1 - 1) + (0 - 0) * (1 - 0) = (0 :: real) \<and>
   direction_count binary64 (np_dot binary64) 45 [(0, 0), (1, 0), (1, 1)] = 1 \<and>
   direction_count binary64 (np_dot binary64) 45 [(0, 0), (1, 1), (2, 2)] = 0 \<and>
   direction_count (\<lambda>x. x) (np_dot (\<lambda>x. x)) (1 / 10 ^ 7) [(0, 0), (1, 1), (2, 2)] = 0 \<and>
   \<not> turns binary64 (np_dot binary64) 45 ((0, 0), (0, 0), (1, 1))"
proof -
  let ?two = "track [sample 0 0 0, sample 1 1 1]"
  let ?nox = "\<lparr>columns = [''time'', ''y''], rows = [sample 0 0 0, sample 1 1 0, sample 2 1 1]\<rparr>"
  let ?df = "track [sample 0 0 0, sample 1 1 0, sample 2 1 1]"
  note br = binary64_meets
  note da = np_dot_meets [OF binary64_meets]
  note dc = direction_changes_count [OF sorting_stable, where fl = binary64 and dot = "np_dot binary64"]
  have l: "length (rows ?two) < 3" by (simp add: track_def)
  from dc [where df = ?two and threshold = 45] l
  have a: "calculate_direction_changes binary64 (np_dot binary64) stable_sort_values ?two 45 = 0"
    by blast
  have u: "set x_names \<inter> set (columns ?nox) = {}" by (simp add: x_names_def)
  from dc [where df = ?nox and threshold = 45] u
  have b: "calculate_direction_changes binary64 (np_dot binary64) stable_sort_values ?nox 45 = 0"
    by blast
  have x: "find_column (columns ?df) x_names = ''x''" and y: "find_column (columns ?df) y_names = ''y''"
    and t: "find_column (columns ?df) time_names = ''time''"
    by (simp_all add: track_def x_names_def y_names_def time_names_def)
  have n: "3 \<le> length (rows ?df)" by (simp add: track_def)
  have g: "3 \<le> length (rows ?df) \<and>
     find_column (columns ?df) x_names = ''x'' \<and> ''x'' \<noteq> [] \<and>
     find_column (columns ?df) y_names = ''y'' \<and> ''y'' \<noteq> []"
    using n x y by simp
  from dc [where df = ?df and threshold = 45 and xc = "''x''" and yc = "''y''"] g
  obtain samples where "mset samples = mset (rows ?df)"
    "find_column (columns ?df) time_names \<noteq> [] \<longrightarrow>
       sorted (map (\<lambda>r. r (find_column (columns ?df) time_names)) samples)"
    "calculate_direction_changes binary64 (np_dot binary64) stable_sort_values ?df 45
       = int (length (filter (turns binary64 (np_dot binary64) 45)
           (triplets (map (\<lambda>r. (r ''x'', r ''y'')) samples))))"
    by blast
  then have c: "\<exists>samples. mset samples = mset (rows ?df) \<and>
      sorted (map (\<lambda>r. r ''time'') samples) \<and>
      calculate_direction_changes binary64 (np_dot binary64) stable_sort_values ?df 45
        = int (length (filter (turns binary64 (np_dot binary64) 45)
            (triplets (map (\<lambda>r. (r ''x'', r ''y'')) samples))))"
    unfolding t by (intro exI [of _ samples]) simp
  have m0: "moderate 0" and m1: "moderate 1" by (simp_all add: moderate_def)
  have o: "(1 - 0) * (1 - 1) + (0 - 0) * (1 - 0) = (0 :: real)" by simp
  have r: "(0 :: real, 0 :: real) \<noteq> (1, 0) \<and> (1 :: real, 0 :: real) \<noteq> (1, 1) \<and>
      moderate (fst (1 :: real, 0 :: real) - fst (0 :: real, 0 :: real)) \<and>
      moderate (snd (1 :: real, 0 :: real) - snd (0 :: real, 0 :: real)) \<and>
      moderate (fst (1 :: real, 1 :: real) - fst (1 :: real, 0 :: real)) \<and>
      moderate (snd (1 :: real, 1 :: real) - snd (1 :: real, 0 :: real)) \<and>
      (fst (1 :: real, 0 :: real) - fst (0 :: real, 0 :: real)) * (fst (1 :: real, 1 :: real) - fst (1 :: real, 0 :: real))
        + (snd (1 :: real, 0 :: real) - snd (0 :: real, 0 :: real)) * (snd (1 :: real, 1 :: real) - snd (1 :: real, 0 :: real)) = 0"
    using m0 m1 by simp
  from dc [where ?p0.0 = "(0, 0)" and ?p1.0 = "(1, 0)" and ?p2.0 = "(1, 1)"] r br da
  have e: "direction_count binary64 (np_dot binary64) 45 [(0, 0), (1, 0), (1, 1)] = 1" by blast
  have sp: "fst (1 :: real, 1 :: real) - fst (0 :: real, 0 :: real) = fst (2 :: real, 2 :: real) - fst (1 :: real, 1 :: real) \<and>
      snd (1 :: real, 1 :: real) - snd (0 :: real, 0 :: real) = snd (2 :: real, 2 :: real) - snd (1 :: real, 1 :: real)"
    by simp
  have sz: "\<bar>fst (1 :: real, 1 :: real) - fst (0 :: real, 0 :: real)\<bar> \<le> 2 ^ 500 \<and>
      \<bar>snd (1 :: real, 1 :: real) - snd (0 :: real, 0 :: real)\<bar> \<le> 2 ^ 500"
    by simp
  have th: "(1 :: real) / 10 ^ 4 \<le> 45" and tp: "(0 :: real) < 1 / 10 ^ 7" by simp_all
  from dc [where threshold = 45 and ?p0.0 = "(0, 0)" and ?p1.0 = "(1, 1)"
      and ?p2.0 = "(2, 2)"] sp sz th br da
  have f: "direction_count binary64 (np_dot binary64) 45 [(0, 0), (1, 1), (2, 2)] = 0" by blast
  from dc [where threshold = "1 / 10 ^ 7" and ?p0.0 = "(0, 0)" and ?p1.0 = "(1, 1)"
      and ?p2.0 = "(2, 2)"] sp tp
  have i: "direction_count (\<lambda>x. x) (np_dot (\<lambda>x. x)) (1 / 10 ^ 7) [(0, 0), (1, 1), (2, 2)] = 0"
    by blast
  from dc [where threshold = 45 and p = "(0, 0)" and r = "(1, 1)"] br da
  have j: "\<not> turns binary64 (np_dot binary64) 45 ((0, 0), (0, 0), (1, 1))" by blast
  from sorting_stable br da l a u b n c m0 m1 o e f i j show ?thesis by blast
qed

text \<open>
  The claim as first stated gives 0 for collinear, evenly spaced samples at any positive
  threshold, and 1 for every exact 90 degree turn. In binary64 the samples (0,0), (1,1),
  (2,2) refute the first: the norm of the heading (1,1) is the rounded square root of 2,
  its square rounds to \<^verbatim>\<open>2 + 2^-51\<close>, the quotient to \<^verbatim>\<open>1 - 2^-52\<close>, and the angle
  computed from it is about \<^verbatim>\<open>1.2e-6\<close> degrees, which a threshold of \<^verbatim>\<open>1e-7\<close>
  counts. The samples (0,0), (t,0), (t,t) with \<^verbatim>\<open>t = 2^-600\<close> refute the second: the
  square of \<open>t\<close> underflows to 0, the norm of the first heading is 0 and the triplet is
  skipped. Both hold for either rounding sequence of the dot product.
\<close>

theorem collinear_rounding_counterexample:
  "calculate_direction_changes binary64 (np_dot binary64) stable_sort_values
     (track [sample 0 0 0, sample 1 1 1, sample 2 2 2]) (1 / 10 ^ 7) = 1 \<and>
   calculate_direction_changes binary64 (np_dot_rounded binary64) stable_sort_values
     (track [sample 0 0 0, sample 1 1 1, sample 2 2 2]) (1 / 10 ^ 7) = 1 \<and>
   (tiny - 0) * (tiny - tiny) + (0 - 0) * (tiny - 0) = 0 \<and>
   calculate_direction_changes binary64 (np_dot binary64) stable_sort_values
     (track [sample 0 0 0, sample 1 tiny 0, sample 2 tiny tiny]) 45 = 0 \<and>
   calculate_direction_changes binary64 (np_dot_rounded binary64) stable_sort_values
     (track [sample 0 0 0, sample 1 tiny 0, sample 2 tiny tiny]) 45 = 0"
  using collinear_count [of "np_dot binary64", OF collinear_dot(1)]
    collinear_count [of "np_dot_rounded binary64", OF collinear_dot(2)]
    underflow_count [of "np_dot binary64", OF underflow_dot(1)]
    underflow_count [of "np_dot_rounded binary64", OF underflow_dot(2)]
  by simp

end
